theory Spec2Isabelle
  imports Main "HOL-Library.Word"
begin

section \<open>Intervals over the integers modulo a power of two (interval.h)\<close>

text \<open>
  The solver's \<open>rational\<close> numbers only ever hold integers in the code modelled here
  (values, bounds and coefficients modulo \<open>2 ^ N\<close>), so they are modelled as \<open>int\<close>.
  A \<open>pdd\<close> is an opaque polynomial of the external arithmetic engine; the interval code
  only distinguishes numerals (\<open>mk_val\<close>, \<open>val()\<close>) from other terms.
\<close>

datatype pdd = Val int | Term nat

text \<open>\<open>class interval\<close>: \<open>std::optional<pdd_bounds>\<close>, \<open>nullopt\<close> is the full domain.\<close>

datatype interval = Full | Proper pdd pdd

fun is_full_i :: "interval \<Rightarrow> bool" where
  "is_full_i Full = True"
| "is_full_i (Proper l h) = False"

record eval_interval =
  m_symbolic :: interval
  m_concrete_lo :: int
  m_concrete_hi :: int

definition eval_full :: eval_interval where
  "eval_full = \<lparr> m_symbolic = Full, m_concrete_lo = 0, m_concrete_hi = 0 \<rparr>"

definition eval_proper :: "pdd \<Rightarrow> int \<Rightarrow> pdd \<Rightarrow> int \<Rightarrow> eval_interval" where
  "eval_proper lo lo_val hi hi_val =
     \<lparr> m_symbolic = Proper lo hi, m_concrete_lo = lo_val, m_concrete_hi = hi_val \<rparr>"

definition is_full :: "eval_interval \<Rightarrow> bool" where
  "is_full i = is_full_i (m_symbolic i)"

definition is_proper :: "eval_interval \<Rightarrow> bool" where
  "is_proper i = (\<not> is_full_i (m_symbolic i))"

definition lo_val :: "eval_interval \<Rightarrow> int" where
  "lo_val i = m_concrete_lo i"

definition hi_val :: "eval_interval \<Rightarrow> int" where
  "hi_val i = m_concrete_hi i"

definition is_currently_empty :: "eval_interval \<Rightarrow> bool" where
  "is_currently_empty i = (is_proper i \<and> lo_val i = hi_val i)"

text \<open>\<open>current_len\<close>, with the modulus \<open>two_to_N\<close> of the bounds' manager passed in.\<close>

definition current_len :: "int \<Rightarrow> eval_interval \<Rightarrow> int" where
  "current_len two_to_N i = (hi_val i - lo_val i) mod two_to_N"

text \<open>\<open>eval_interval::currently_contains(rational const& val)\<close>\<close>

definition currently_contains :: "eval_interval \<Rightarrow> int \<Rightarrow> bool" where
  "currently_contains i val =
     (if is_full i then True
      else if lo_val i \<le> hi_val i then lo_val i \<le> val \<and> val < hi_val i
      else val < hi_val i \<or> val \<ge> lo_val i)"

text \<open>\<open>eval_interval::currently_contains(eval_interval const& other)\<close>\<close>

definition currently_contains_i :: "eval_interval \<Rightarrow> eval_interval \<Rightarrow> bool" where
  "currently_contains_i i other =
     (if is_full i then True
      else if is_full other then False
      else if lo_val i \<le> lo_val other \<and> lo_val other \<le> hi_val other \<and> hi_val other \<le> hi_val i
        then True
      else if lo_val i \<le> hi_val i then False
      else if lo_val i \<le> lo_val other \<and> lo_val other \<le> hi_val other then True
      else if lo_val other \<le> hi_val other \<and> hi_val other \<le> hi_val i then True
      else if hi_val other \<le> hi_val i \<and> lo_val i \<le> lo_val other then True
      else False)"

section \<open>Data model of the solver (types.h, search_state.h, solver.h, viable.h)\<close>

type_synonym pvar = nat
type_synonym u32 = "32 word"

datatype lbool = l_false | l_undef | l_true

text \<open>\<open>sat::literal\<close>: a boolean variable and a sign (\<open>True\<close> is the negated literal).\<close>

datatype literal = Lit (lit_var: nat) (lit_sign: bool)

definition neg_lit :: "literal \<Rightarrow> literal" where
  "neg_lit l = Lit (lit_var l) (\<not> lit_sign l)"

text \<open>
  Modelled from the spec: the constraint classes (constraint.h) are not among the sources.
  A signed constraint is "a relation instance paired with a polarity and bound to a boolean
  variable"; the relation is identified by its boolean variable.
\<close>

datatype signed_constraint = SC (sc_bvar: nat) (sc_positive: bool)

definition blit :: "signed_constraint \<Rightarrow> literal" where
  "blit c = Lit (sc_bvar c) (\<not> sc_positive c)"

definition lit2cnstr :: "literal \<Rightarrow> signed_constraint" where
  "lit2cnstr l = SC (lit_var l) (\<not> lit_sign l)"

definition is_negative :: "signed_constraint \<Rightarrow> bool" where
  "is_negative c = (\<not> sc_positive c)"

text \<open>
  \<open>viable::entry\<close>: a forbidden-interval record (\<open>fi_record\<close>) that is also a node of a
  circular doubly-linked list. \<open>eid\<close> is the address of the object (entries are compared
  by pointer in the code).
\<close>

record entry =
  eid :: nat
  interval :: eval_interval
  side_cond :: "signed_constraint list"
  src :: "signed_constraint list"
  coeff :: int
  bit_width :: nat
  refined :: bool

text \<open>\<open>entry::reset\<close> as used by \<open>alloc_entry\<close>: a blank record at address \<open>a\<close>.\<close>

definition blank_entry :: "nat \<Rightarrow> entry" where
  "blank_entry a = \<lparr> eid = a, interval = eval_full, side_cond = [], src = [],
                     coeff = 1, bit_width = 0, refined = False \<rparr>"

datatype entry_kind = unit_e | equal_e | diseq_e

text \<open>
  Modelled from the spec: \<open>dll_base\<close> (util/dlist.h) is not among the sources. The spec
  asks for "O(1) insertion/removal with circular traversal and undo-on-backjump". A
  circular list rooted at a head pointer is modelled by the sequence of its entries in
  \<open>next()\<close> order starting at the head; the null pointer is the empty sequence.
\<close>

type_synonym ring = "entry list"

fun ring_pred :: "ring \<Rightarrow> nat \<Rightarrow> nat \<Rightarrow> nat option" where
  "ring_pred [] p x = None"
| "ring_pred (e # es) p x = (if eid e = x then Some p else ring_pred es (eid e) x)"

fun remove_id :: "ring \<Rightarrow> nat \<Rightarrow> ring" where
  "remove_id [] x = []"
| "remove_id (e # es) x = (if eid e = x then es else e # remove_id es x)"

text \<open>
  \<open>dll_base::remove_from(list, elem)\<close>: unlinks \<open>elem\<close>; the head moves to the next entry
  when the head itself is removed. The removed entry keeps its own \<open>m_prev\<close> link, which
  \<open>push_viable\<close> reads later: the link is returned next to the new ring. Removing from the
  null list, or an entry that is not in the ring, is an error.
\<close>

definition remove_from :: "ring \<Rightarrow> nat \<Rightarrow> (ring \<times> nat) option" where
  "remove_from r x =
     (if r = [] then None
      else case ring_pred r (eid (last r)) x of
             None \<Rightarrow> None
           | Some p \<Rightarrow> Some (remove_id r x, p))"

text \<open>\<open>pos->insert_after(e)\<close> for a detached \<open>e\<close>: \<open>e\<close> follows the entry at address \<open>pos\<close>.\<close>

fun insert_after :: "ring \<Rightarrow> nat \<Rightarrow> entry \<Rightarrow> ring option" where
  "insert_after [] pos e = None"
| "insert_after (x # xs) pos e =
     (if eid x = pos then Some (x # e # xs)
      else case insert_after xs pos e of None \<Rightarrow> None | Some ys \<Rightarrow> Some (x # ys))"

text \<open>Make the entry at address \<open>x\<close> the head of the ring (\<open>entries = e\<close>).\<close>

fun rotate_to :: "ring \<Rightarrow> ring \<Rightarrow> nat \<Rightarrow> ring" where
  "rotate_to acc [] x = acc"
| "rotate_to acc (e # es) x =
     (if eid e = x then (e # es) @ acc else rotate_to (acc @ [e]) es x)"

text \<open>\<open>viable::layer\<close> and \<open>viable::layers\<close>: the unit intervals of one variable per bit-width.\<close>

record layer =
  l_bit_width :: nat
  entries :: ring

definition new_layer :: "nat \<Rightarrow> layer" where
  "new_layer w = \<lparr> l_bit_width = w, entries = [] \<rparr>"

type_synonym layers = "layer list"

text \<open>
  \<open>layers::ensure_layer\<close>: the layers are kept in descending bit-width; a missing layer is
  created in place. The result is the updated vector and the index of the layer.
\<close>

fun ensure_layer :: "layers \<Rightarrow> nat \<Rightarrow> layers \<times> nat" where
  "ensure_layer [] w = ([new_layer w], 0)"
| "ensure_layer (l # ls) w =
     (if l_bit_width l = w then (l # ls, 0)
      else if l_bit_width l < w then (new_layer w # l # ls, 0)
      else (case ensure_layer ls w of (ls', i) \<Rightarrow> (l # ls', Suc i)))"

fun get_layer :: "layers \<Rightarrow> nat \<Rightarrow> nat option" where
  "get_layer [] w = None"
| "get_layer (l # ls) w =
     (if l_bit_width l = w then Some 0 else map_option Suc (get_layer ls w))"

text \<open>\<open>layers::get_entries(bit_width)\<close>: the ring of that width, null when there is no layer.\<close>

definition get_entries :: "layers \<Rightarrow> nat \<Rightarrow> ring" where
  "get_entries ls w = (case get_layer ls w of None \<Rightarrow> [] | Some i \<Rightarrow> entries (ls ! i))"

definition set_entries :: "layers \<Rightarrow> nat \<Rightarrow> ring \<Rightarrow> layers" where
  "set_entries ls i r = ls[i := (ls ! i)\<lparr> entries := r \<rparr>]"

datatype trail_instr_t =
  qhead_i | add_var_i | inc_level_i | viable_add_i | viable_rem_i | assign_i | assign_bool_i

text \<open>
  Modelled from the spec: justification.h is not among the sources. A variable owns
  "a current value (optional), a justification"; the code reads \<open>is_unassigned\<close>,
  \<open>is_decision\<close> and \<open>level\<close>.
\<close>

datatype justification = unassigned | decision u32 | propagation u32

datatype search_item = assignment pvar | boolean literal

text \<open>
  Modelled from the spec: boolean.h (\<open>bool_var_manager\<close>) is not among the sources. The
  "two-valued boolean layer" keeps a value and an assignment level per boolean variable;
  \<open>unassign\<close> clears both.
\<close>

record bool_var_manager =
  bv_value :: "nat \<Rightarrow> lbool"
  bv_level :: "nat \<Rightarrow> u32"

definition bv_unassign :: "bool_var_manager \<Rightarrow> literal \<Rightarrow> bool_var_manager" where
  "bv_unassign b l = b\<lparr> bv_value := (bv_value b)(lit_var l := l_undef),
                         bv_level := (bv_level b)(lit_var l := - 1) \<rparr>"


text \<open>The viable engine's state (class \<open>viable\<close>).\<close>

record viable =
  m_alloc :: "nat list"
  m_fresh :: nat
  m_units :: "layers list"
  m_equal_lin :: "ring list"
  m_diseq_lin :: "ring list"
  m_vtrail :: "(pvar \<times> entry_kind \<times> entry \<times> nat) list"

text \<open>
  How a pending conflict was raised. The conflict core itself (conflict.h is only a
  declaration here) is not modelled.
\<close>

datatype conflict_t =
  no_conflict | by_var pvar | by_viable_interval pvar | by_viable_fallback pvar
  | by_bit_check pvar

text \<open>The fields of class \<open>solver\<close> that the modelled functions read or write.\<close>

record solver =
  m_viable :: viable
  m_fallback_constraints :: "signed_constraint list list"
  m_conflict :: conflict_t
  m_bvars :: bool_var_manager
  m_free_pvars :: "pvar set"
  m_active :: "nat \<Rightarrow> bool"
  c_vars :: "nat \<Rightarrow> pvar list"
  m_num_decisions :: u32
  m_num_propagations :: u32
  m_num_conflicts :: u32
  m_num_restarts :: u32
  m_conflicts_at_restart :: u32
  m_restart_threshold :: u32
  m_restart_init :: u32
  m_luby_idx :: u32
  m_value :: "int list"
  m_justification :: "justification list"
  m_pwatch :: "signed_constraint list list"
  m_activity :: "u32 list"
  m_vars :: "pdd list"
  m_size :: "nat list"
  m_search :: "search_item list"
  m_qhead :: nat
  m_level :: u32
  m_trail :: "trail_instr_t list"
  m_qhead_trail :: "nat list"
  m_base_levels :: "u32 list"
  m_ptrue_lits :: "literal set"
  m_ptrue_lits_trail :: "literal list"
  m_ptrue_lits_size_trail :: "nat list"

section \<open>Insertion into and removal from the interval lists (viable.cpp)\<close>

text \<open>\<open>vector::pop_back\<close> and \<open>vector::back\<close>; both are undefined on an empty vector.\<close>

definition pop_back :: "'a list \<Rightarrow> 'a list option" where
  "pop_back xs = (if xs = [] then None else Some (butlast xs))"

definition vback :: "'a list \<Rightarrow> 'a option" where
  "vback xs = (if xs = [] then None else Some (last xs))"

text \<open>
  \<open>viable::alloc_entry\<close>: reuse the last entry of the free list \<open>m_alloc\<close>, or allocate a
  new object; new addresses are handed out by the counter \<open>m_fresh\<close>.
\<close>

definition alloc_entry :: "viable \<Rightarrow> entry \<times> viable" where
  "alloc_entry vi =
     (if m_alloc vi = [] then (blank_entry (m_fresh vi), vi\<lparr> m_fresh := Suc (m_fresh vi) \<rparr>)
      else (blank_entry (last (m_alloc vi)), vi\<lparr> m_alloc := butlast (m_alloc vi) \<rparr>))"

definition push_var :: "viable \<Rightarrow> viable" where
  "push_var vi = vi\<lparr> m_units := m_units vi @ [[]],
                      m_equal_lin := m_equal_lin vi @ [[]],
                      m_diseq_lin := m_diseq_lin vi @ [[]] \<rparr>"

definition pop_var :: "viable \<Rightarrow> viable option" where
  "pop_var vi =
     (if m_units vi = [] \<or> m_equal_lin vi = [] \<or> m_diseq_lin vi = [] then None
      else Some (vi\<lparr> m_units := butlast (m_units vi),
                     m_equal_lin := butlast (m_equal_lin vi),
                     m_diseq_lin := butlast (m_diseq_lin vi) \<rparr>))"

text \<open>
  \<open>viable::insert(e, v, entries, k)\<close>, used for the equal-linear and disequal-linear
  lists: log the insertion on both trails and link \<open>e\<close> into the ring of \<open>v\<close>; the head
  stays where it is.
\<close>

definition insert_lin :: "entry \<Rightarrow> pvar \<Rightarrow> entry_kind \<Rightarrow> solver \<Rightarrow> solver option" where
  "insert_lin e v k s =
     (let vi = m_viable s;
          es = (if k = equal_e then m_equal_lin vi else m_diseq_lin vi)
      in if v < length es then
           (let es' = es[v := es ! v @ [e]];
                vi' = (if k = equal_e then vi\<lparr> m_equal_lin := es' \<rparr>
                       else vi\<lparr> m_diseq_lin := es' \<rparr>)
            in Some (s\<lparr> m_viable := vi'\<lparr> m_vtrail := m_vtrail vi @ [(v, k, e, eid e)] \<rparr>,
                        m_trail := m_trail s @ [viable_add_i] \<rparr>))
         else None)"

text \<open>
  \<open>while (entries) remove_entry(entries)\<close>: the head is removed again and again; each
  removed entry is logged with the link to its predecessor at that moment.
\<close>

fun remove_all :: "ring \<Rightarrow> (entry \<times> nat) list" where
  "remove_all [] = []"
| "remove_all (e # es) = (e, eid (last (e # es))) # remove_all es"

text \<open>
  The \<open>do ... while (e != first)\<close> loop of \<open>viable::intersect(pvar, entry*)\<close>. The ring is
  \<open>pre @ rest\<close>: \<open>pre\<close> are the entries already passed, \<open>e\<close> is the head of \<open>rest\<close>, and
  \<open>first\<close> is the head of the ring. \<open>chk\<close> is false when \<open>e\<close> was reached inside the inner
  \<open>while\<close> loop (after a removal), where the test \<open>e contains ne\<close> is not made. When the
  inner loop removes the last entry of the ring, \<open>e\<close> is \<open>first\<close> again and the outer loop
  runs once more over the entries of \<open>pre\<close>; all their tests are known except
  \<open>e contains ne\<close> for the entries after \<open>first\<close>. The result is: was \<open>ne\<close> inserted, the
  new ring, and the removed entries with their links.
\<close>

fun intersect_loop ::
  "entry \<Rightarrow> bool \<Rightarrow> ring \<Rightarrow> ring \<Rightarrow> (entry \<times> nat) list \<Rightarrow> bool \<times> ring \<times> (entry \<times> nat) list" where
  "intersect_loop ne chk pre [] rm = (True, pre @ [ne], rm)"
| "intersect_loop ne chk pre (e # rest) rm =
     (if chk \<and> currently_contains_i (interval e) (interval ne) then (False, pre @ e # rest, rm)
      else if currently_contains_i (interval ne) (interval e) then
        (let link = (if pre \<noteq> [] then eid (last pre)
                     else if rest \<noteq> [] then eid (last rest) else eid e);
             rm' = rm @ [(e, link)]
         in if pre = [] \<and> rest = [] then (True, [ne], rm')
            else if rest = [] then
              (if \<exists>x \<in> set (tl pre). currently_contains_i (interval x) (interval ne)
               then (False, pre, rm') else (True, pre @ [ne], rm'))
            else intersect_loop ne False pre rest rm')
      else if lo_val (interval e) > lo_val (interval ne) then
        (if currently_contains_i (interval (last (e # rest))) (interval ne)
         then (False, pre @ e # rest, rm)
         else (True, pre @ ne # e # rest, rm))
      else intersect_loop ne True (pre @ [e]) rest rm)"

text \<open>The ring-level decision of \<open>viable::intersect(pvar, entry*)\<close>.\<close>

definition intersect_ring :: "entry \<Rightarrow> ring \<Rightarrow> bool \<times> ring \<times> (entry \<times> nat) list" where
  "intersect_ring ne r =
     (if r \<noteq> [] \<and> is_full (interval (hd r)) then (False, r, [])
      else if is_currently_empty (interval ne) then (False, r, [])
      else if is_full (interval ne) then (True, [ne], remove_all r)
      else if r = [] then (True, [ne], [])
      else intersect_loop ne True [] r [])"

text \<open>
  \<open>viable::intersect(pvar v, entry* ne)\<close>: every removal is logged as \<open>viable_rem_i\<close>, the
  insertion as \<open>viable_add_i\<close>; a rejected \<open>ne\<close> goes back to the free list.
\<close>

definition intersect_entry :: "pvar \<Rightarrow> entry \<Rightarrow> solver \<Rightarrow> (bool \<times> solver) option" where
  "intersect_entry v ne s =
     (let vi = m_viable s in
      if v < length (m_units vi) then
        (case ensure_layer (m_units vi ! v) (bit_width ne) of (ls, i) \<Rightarrow>
         (case intersect_ring ne (entries (ls ! i)) of (ins, r, rm) \<Rightarrow>
            (let tr = m_vtrail vi @ map (\<lambda>(e, link). (v, unit_e, e, link)) rm
                      @ (if ins then [(v, unit_e, ne, eid ne)] else []);
                 vi' = vi\<lparr> m_units := (m_units vi)[v := set_entries ls i r],
                            m_vtrail := tr,
                            m_alloc := (if ins then m_alloc vi else m_alloc vi @ [eid ne]) \<rparr>
             in Some (ins, s\<lparr> m_viable := vi',
                               m_trail := m_trail s @ replicate (length rm) viable_rem_i
                                          @ (if ins then [viable_add_i] else []) \<rparr>))))
      else None)"

text \<open>\<open>viable::pop_viable\<close>: undo the insertion logged last.\<close>

definition pop_viable :: "viable \<Rightarrow> viable option" where
  "pop_viable vi =
     (case vback (m_vtrail vi) of
        None \<Rightarrow> None
      | Some (v, k, e, link) \<Rightarrow>
         (case k of
            unit_e \<Rightarrow>
              (if v < length (m_units vi) then
                 (case get_layer (m_units vi ! v) (bit_width e) of
                    None \<Rightarrow> None
                  | Some i \<Rightarrow>
                     (case remove_from (entries (m_units vi ! v ! i)) (eid e) of
                        None \<Rightarrow> None
                      | Some (r, p) \<Rightarrow>
                          Some (vi\<lparr> m_units := (m_units vi)[v := set_entries (m_units vi ! v) i r],
                                     m_alloc := m_alloc vi @ [eid e],
                                     m_vtrail := butlast (m_vtrail vi) \<rparr>)))
               else None)
          | equal_e \<Rightarrow>
              (if v < length (m_equal_lin vi) then
                 (case remove_from (m_equal_lin vi ! v) (eid e) of
                    None \<Rightarrow> None
                  | Some (r, p) \<Rightarrow>
                      Some (vi\<lparr> m_equal_lin := (m_equal_lin vi)[v := r],
                                 m_alloc := m_alloc vi @ [eid e],
                                 m_vtrail := butlast (m_vtrail vi) \<rparr>))
               else None)
          | diseq_e \<Rightarrow>
              (if v < length (m_diseq_lin vi) then
                 (case remove_from (m_diseq_lin vi ! v) (eid e) of
                    None \<Rightarrow> None
                  | Some (r, p) \<Rightarrow>
                      Some (vi\<lparr> m_diseq_lin := (m_diseq_lin vi)[v := r],
                                 m_alloc := m_alloc vi @ [eid e],
                                 m_vtrail := butlast (m_vtrail vi) \<rparr>))
               else None)))"

text \<open>
  \<open>viable::push_viable\<close>: undo the removal logged last. An entry whose \<open>prev()\<close> link is
  itself was alone in its ring; otherwise it goes back behind its old predecessor and
  becomes the head when its lower bound is below the head's.
\<close>

definition push_viable :: "viable \<Rightarrow> viable option" where
  "push_viable vi =
     (case vback (m_vtrail vi) of
        None \<Rightarrow> None
      | Some (v, k, e, link) \<Rightarrow>
         (if v < length (m_units vi) then
            (case get_layer (m_units vi ! v) (bit_width e) of
               None \<Rightarrow> None
             | Some i \<Rightarrow>
                (let r = entries (m_units vi ! v ! i) in
                 (case (if link \<noteq> eid e then
                          (case insert_after r link e of
                             None \<Rightarrow> None
                           | Some r' \<Rightarrow>
                               Some (if lo_val (interval e) < lo_val (interval (hd r))
                                     then rotate_to [] r' (eid e) else r'))
                        else Some [e]) of
                    None \<Rightarrow> None
                  | Some r' \<Rightarrow>
                      Some (vi\<lparr> m_units := (m_units vi)[v := set_entries (m_units vi ! v) i r'],
                                 m_vtrail := butlast (m_vtrail vi) \<rparr>))))
          else None))"

section \<open>Backjumping, scopes and restarts (solver.cpp)\<close>

definition is_conflict :: "solver \<Rightarrow> bool" where
  "is_conflict s = (m_conflict s \<noteq> no_conflict)"

definition base_level :: "solver \<Rightarrow> u32" where
  "base_level s = (if m_base_levels s = [] then 0 else last (m_base_levels s))"

definition at_base_level :: "solver \<Rightarrow> bool" where
  "at_base_level s = (m_level s = base_level s)"

definition can_propagate :: "solver \<Rightarrow> bool" where
  "can_propagate s = (m_qhead s < length (m_search s) \<and> \<not> is_conflict s)"

definition push_level :: "solver \<Rightarrow> solver" where
  "push_level s = s\<lparr> m_level := m_level s + 1, m_trail := m_trail s @ [inc_level_i] \<rparr>"

text \<open>\<open>solver::pop_qhead\<close> (solver.h)\<close>

definition pop_qhead :: "solver \<Rightarrow> solver option" where
  "pop_qhead s =
     (if m_qhead_trail s = [] \<or> m_ptrue_lits_size_trail s = [] then None
      else (let sz = last (m_ptrue_lits_size_trail s) in
            Some (s\<lparr> m_qhead := last (m_qhead_trail s),
                      m_qhead_trail := butlast (m_qhead_trail s),
                      m_ptrue_lits_size_trail := butlast (m_ptrue_lits_size_trail s),
                      m_ptrue_lits := m_ptrue_lits s - set (drop sz (m_ptrue_lits_trail s)),
                      m_ptrue_lits_trail := take sz (m_ptrue_lits_trail s) \<rparr>)))"

text \<open>\<open>solver::del_var\<close>: undo of \<open>add_var\<close>; the variable removed is the last one.\<close>

definition del_var :: "solver \<Rightarrow> solver option" where
  "del_var s =
     (if m_value s = [] \<or> m_justification s = [] \<or> m_pwatch s = [] \<or> m_activity s = []
         \<or> m_vars s = [] \<or> m_size s = [] then None
      else case pop_var (m_viable s) of
             None \<Rightarrow> None
           | Some vi \<Rightarrow>
               Some (s\<lparr> m_viable := vi, m_value := butlast (m_value s),
                         m_justification := butlast (m_justification s),
                         m_pwatch := butlast (m_pwatch s),
                         m_activity := butlast (m_activity s),
                         m_vars := butlast (m_vars s), m_size := butlast (m_size s),
                         m_free_pvars := m_free_pvars s - {length (m_value s) - 1} \<rparr>))"



text \<open>
  \<open>solver::erase_watch(v, c)\<close>: the first occurrence of \<open>c\<close> is overwritten by the last
  element of the watch list, which is then dropped. \<open>null_var\<close> is \<open>UINT_MAX\<close>.
\<close>

fun erase_first :: "'a list \<Rightarrow> 'a \<Rightarrow> 'a list" where
  "erase_first [] c = []"
| "erase_first (x # xs) c =
     (if c = x then (if xs = [] then [] else last xs # butlast xs)
      else x # erase_first xs c)"

definition null_var :: pvar where
  "null_var = 4294967295"

definition erase_watch_var :: "pvar \<Rightarrow> signed_constraint \<Rightarrow> solver \<Rightarrow> solver option" where
  "erase_watch_var v c s =
     (if v = null_var then Some s
      else if v < length (m_pwatch s)
      then Some (s\<lparr> m_pwatch := (m_pwatch s)[v := erase_first (m_pwatch s ! v) c] \<rparr>)
      else None)"

definition erase_watch :: "signed_constraint \<Rightarrow> solver \<Rightarrow> solver option" where
  "erase_watch c s =
     (let vars = c_vars s (sc_bvar c) in
      case (if length vars > 0 then erase_watch_var (vars ! 0) c s else Some s) of
        None \<Rightarrow> None
      | Some s1 \<Rightarrow> (if length vars > 1 then erase_watch_var (vars ! 1) c s1 else Some s1))"

definition deactivate_constraint :: "signed_constraint \<Rightarrow> solver \<Rightarrow> solver option" where
  "deactivate_constraint c s = erase_watch c (s\<lparr> m_active := (m_active s)(sc_bvar c := False) \<rparr>)"

text \<open>
  One iteration of the \<open>while (num_levels > 0)\<close> loop of \<open>solver::pop_levels\<close>, without the
  final \<open>m_trail.pop_back()\<close>: the undo action of one trail instruction. It returns the
  new state, the remaining number of levels and the literals to replay. Reading the back
  of an empty vector, or an item of the wrong kind, is an error.
\<close>

definition undo_instr ::
  "trail_instr_t \<Rightarrow> u32 \<Rightarrow> u32 \<Rightarrow> literal list \<Rightarrow> solver \<Rightarrow> (solver \<times> u32 \<times> literal list) option" where
  "undo_instr i num_levels target_level replay s =
     (case i of
        qhead_i \<Rightarrow> map_option (\<lambda>s'. (s', num_levels, replay)) (pop_qhead s)
      | add_var_i \<Rightarrow> map_option (\<lambda>s'. (s', num_levels, replay)) (del_var s)
      | inc_level_i \<Rightarrow> Some (s\<lparr> m_level := m_level s - 1 \<rparr>, num_levels - 1, replay)
      | viable_add_i \<Rightarrow>
          map_option (\<lambda>vi. (s\<lparr> m_viable := vi \<rparr>, num_levels, replay)) (pop_viable (m_viable s))
      | viable_rem_i \<Rightarrow>
          map_option (\<lambda>vi. (s\<lparr> m_viable := vi \<rparr>, num_levels, replay)) (push_viable (m_viable s))
      | assign_i \<Rightarrow>
          (case vback (m_search s) of
             Some (assignment v) \<Rightarrow>
               (if v < length (m_justification s)
                then Some (s\<lparr> m_free_pvars := insert v (m_free_pvars s),
                               m_justification := (m_justification s)[v := unassigned],
                               m_search := butlast (m_search s) \<rparr>, num_levels, replay)
                else None)
           | _ \<Rightarrow> None)
      | assign_bool_i \<Rightarrow>
          (case vback (m_search s) of
             Some (boolean lit) \<Rightarrow>
               (let c = lit2cnstr lit;
                    active_level = bv_level (m_bvars s) (lit_var lit)
                in case (if m_active s (sc_bvar c) then deactivate_constraint c s else Some s) of
                     None \<Rightarrow> None
                   | Some s1 \<Rightarrow>
                       (if active_level \<le> target_level
                        then Some (s1\<lparr> m_search := butlast (m_search s1) \<rparr>,
                                   num_levels, replay @ [lit])
                        else Some (s1\<lparr> m_bvars := bv_unassign (m_bvars s1) lit,
                                         m_search := butlast (m_search s1) \<rparr>,
                                   num_levels, replay)))
           | _ \<Rightarrow> None))"

text \<open>
  The loop itself, by recursion on the trail read from its back (\<open>tr\<close> is the trail
  reversed); \<open>m_trail\<close> is popped after every undo action.
\<close>

fun pop_levels_loop ::
  "trail_instr_t list \<Rightarrow> u32 \<Rightarrow> u32 \<Rightarrow> literal list \<Rightarrow> solver \<Rightarrow> (solver \<times> literal list) option" where
  "pop_levels_loop tr num_levels target_level replay s =
     (if num_levels = 0 then Some (s, replay)
      else case tr of
             [] \<Rightarrow> None
           | i # tr' \<Rightarrow>
               (case undo_instr i num_levels target_level replay s of
                  None \<Rightarrow> None
                | Some (s', n', replay') \<Rightarrow>
                    pop_levels_loop tr' n' target_level replay' (s'\<lparr> m_trail := rev tr' \<rparr>)))"

text \<open>
  \<open>solver::pop_levels\<close>. The literals collected in \<open>replay\<close> are pushed again from the back
  of \<open>replay\<close> to its front. \<open>m_constraints.release_level\<close> belongs to the external clause
  store and has no effect on the fields modelled.
\<close>

definition pop_levels :: "u32 \<Rightarrow> solver \<Rightarrow> solver option" where
  "pop_levels num_levels s =
     (if num_levels = 0 then Some s
      else case pop_levels_loop (rev (m_trail s)) num_levels (m_level s - num_levels) [] s of
             None \<Rightarrow> None
           | Some (s', replay) \<Rightarrow>
               Some (s'\<lparr> m_trail := m_trail s' @ replicate (length replay) assign_bool_i,
                         m_search := m_search s' @ map boolean (rev replay) \<rparr>))"

definition backjump :: "u32 \<Rightarrow> solver \<Rightarrow> solver option" where
  "backjump new_level s = pop_levels (m_level s - new_level) s"

definition push :: "solver \<Rightarrow> solver" where
  "push s = (let s1 = push_level s in s1\<lparr> m_base_levels := m_base_levels s1 @ [m_level s1] \<rparr>)"

text \<open>\<open>solver::pop(num_scopes)\<close>; indexing \<open>m_base_levels\<close> out of range is an error.\<close>

definition pop :: "nat \<Rightarrow> solver \<Rightarrow> solver option" where
  "pop num_scopes s =
     (if num_scopes = 0 \<or> num_scopes > length (m_base_levels s) then None
      else (let bl = m_base_levels s ! (length (m_base_levels s) - num_scopes)
            in map_option (\<lambda>s'. s'\<lparr> m_conflict := no_conflict \<rparr>)
                 (pop_levels (m_level s - bl + 1) s)))"

definition should_restart :: "solver \<Rightarrow> bool" where
  "should_restart s =
     (if m_num_conflicts s - m_conflicts_at_restart s < m_restart_threshold s then False
      else if base_level s + 2 > m_level s then False
      else True)"

text \<open>
  \<open>solver::restart\<close>. \<open>get_luby\<close> (util/luby.h) is not among the sources and is a
  parameter.
\<close>

definition restart :: "(u32 \<Rightarrow> u32) \<Rightarrow> solver \<Rightarrow> solver option" where
  "restart get_luby s =
     (let s1 = s\<lparr> m_num_restarts := m_num_restarts s + 1 \<rparr>
      in map_option
           (\<lambda>s2. s2\<lparr> m_conflicts_at_restart := m_num_conflicts s2,
                     m_luby_idx := m_luby_idx s2 + 1,
                     m_restart_threshold := m_restart_init s2 * get_luby (m_luby_idx s2 + 1) \<rparr>)
           (pop_levels (m_level s1 - base_level s1) s1))"

definition should_simplify :: "solver \<Rightarrow> bool" where
  "should_simplify s = False"

text \<open>
  The priority of one iteration of the main loop of \<open>solver::check_sat\<close>. \<open>can_decide\<close>
  and the clause store's \<open>should_gc\<close> are not among the sources and are parameters.
\<close>

datatype action =
  a_unsat | a_resolve_conflict | a_propagate | a_sat | a_gc | a_simplify | a_restart | a_decide

definition check_sat_action :: "bool \<Rightarrow> bool \<Rightarrow> solver \<Rightarrow> action" where
  "check_sat_action can_decide should_gc s =
     (if is_conflict s \<and> at_base_level s then a_unsat
      else if is_conflict s then a_resolve_conflict
      else if can_propagate s then a_propagate
      else if \<not> can_decide then a_sat
      else if should_gc then a_gc
      else if should_simplify s then a_simplify
      else if should_restart s then a_restart
      else a_decide)"

section \<open>Concrete states used to exercise the definitions\<close>

definition viable0 :: viable where
  "viable0 = \<lparr> m_alloc = [], m_fresh = 0, m_units = [], m_equal_lin = [], m_diseq_lin = [],
                m_vtrail = [] \<rparr>"

definition solver0 :: solver where
  "solver0 = \<lparr> m_viable = viable0, m_fallback_constraints = [], m_conflict = no_conflict,
     m_bvars = \<lparr> bv_value = (\<lambda>_. l_undef), bv_level = (\<lambda>_. - 1) \<rparr>,
     m_free_pvars = {}, m_active = (\<lambda>_. False), c_vars = (\<lambda>_. []),
     m_num_decisions = 0, m_num_propagations = 0,
     m_num_conflicts = 0, m_num_restarts = 0, m_conflicts_at_restart = 0,
     m_restart_threshold = 100, m_restart_init = 100, m_luby_idx = 0,
     m_value = [], m_justification = [], m_pwatch = [], m_activity = [], m_vars = [],
     m_size = [], m_search = [], m_qhead = 0, m_level = 0, m_trail = [], m_qhead_trail = [],
     m_base_levels = [], m_ptrue_lits = {}, m_ptrue_lits_trail = [],
     m_ptrue_lits_size_trail = [] \<rparr>"

text \<open>Two decisions above the base level and 100 conflicts since the last restart.\<close>

definition solver_r :: solver where
  "solver_r = solver0\<lparr> m_level := 2, m_trail := [inc_level_i, assign_i, inc_level_i, assign_i],
                       m_search := [assignment 0, assignment 1],
                       m_value := [3, 5], m_justification := [decision 1, decision 2],
                       m_num_conflicts := 100, m_qhead := 2 \<rparr>"

text \<open>The fields that \<open>solver::restart\<close> reads after \<open>pop_levels\<close>.\<close>

definition rfields :: "solver \<Rightarrow> u32 \<times> u32 \<times> u32" where
  "rfields s = (m_restart_init s, m_luby_idx s, m_num_conflicts s)"

section \<open>What a backjump pops\<close>

text \<open>
  The instructions that the loop of \<open>pop_levels\<close> takes off the trail, in the order in
  which they are popped: everything down to and including the \<open>num_levels\<close>-th
  \<open>inc_level_i\<close> from the back. \<open>tr\<close> is the trail reversed.
\<close>

fun popped :: "trail_instr_t list \<Rightarrow> u32 \<Rightarrow> trail_instr_t list" where
  "popped [] n = []"
| "popped (i # tr) n =
     (if n = 0 then [] else i # popped tr (if i = inc_level_i then n - 1 else n))"

definition is_assign_instr :: "trail_instr_t \<Rightarrow> bool" where
  "is_assign_instr i = (i = assign_i \<or> i = assign_bool_i)"


text \<open>The undo actions on the viable engine for a sequence of popped instructions.\<close>

fun undo_viable_instrs :: "trail_instr_t list \<Rightarrow> viable \<Rightarrow> viable option" where
  "undo_viable_instrs [] vi = Some vi"
| "undo_viable_instrs (i # is) vi =
     (case (if i = viable_add_i then pop_viable vi
            else if i = viable_rem_i then push_viable vi
            else if i = add_var_i then pop_var vi
            else Some vi) of
        None \<Rightarrow> None
      | Some vi' \<Rightarrow> undo_viable_instrs is vi')"







section \<open>Number-theoretic helpers of the refinement (viable.cpp, number.h)\<close>

text \<open>\<open>floor(a / b)\<close> and \<open>ceil(a / b)\<close> on rationals with integer arguments.\<close>

definition div_floor :: "int \<Rightarrow> int \<Rightarrow> int" where
  "div_floor a b = a div b"

definition div_ceil :: "int \<Rightarrow> int \<Rightarrow> int" where
  "div_ceil a b = - ((- a) div b)"

text \<open>
  Modelled from the spec: number.h and the \<open>rational\<close> class are not among the sources.
  "Parity: number of trailing zero bits of a modular value"; the parity of 0 at width \<open>N\<close>
  is \<open>N\<close>.
\<close>

fun get_parity :: "int \<Rightarrow> nat \<Rightarrow> nat" where
  "get_parity a 0 = 0"
| "get_parity a (Suc N) = (if odd a then 0 else Suc (get_parity (a div 2) N))"

text \<open>
  Modelled from the spec: \<open>rational::mult_inverse(N, inv)\<close>, the inverse modulo \<open>2 ^ N\<close>
  (for instance "171 (the modular inverse of 3 mod 256)"); it fails when there is none.
  The candidate is computed by Newton iteration and checked.
\<close>

fun newton_inv :: "nat \<Rightarrow> int \<Rightarrow> int \<Rightarrow> int \<Rightarrow> int" where
  "newton_inv 0 a M x = x"
| "newton_inv (Suc n) a M x = newton_inv n a M ((x * (2 - a * x)) mod M)"

definition mult_inverse :: "int \<Rightarrow> nat \<Rightarrow> int option" where
  "mult_inverse a N =
     (let x = newton_inv N a (2 ^ N) (1 mod 2 ^ N)
      in if (a * x) mod 2 ^ N = 1 mod 2 ^ N then Some x else None)"

text \<open>
  Modelled from the spec: \<open>rational::pseudo_inverse(N)\<close>, the inverse of the odd part of
  \<open>a\<close> after "the largest power-of-two factor k of a is extracted"; 0 for \<open>a = 0\<close>.
\<close>

definition pseudo_inverse :: "int \<Rightarrow> nat \<Rightarrow> int option" where
  "pseudo_inverse a N =
     (if a mod 2 ^ N = 0 then Some 0
      else mult_inverse (a mod 2 ^ N div 2 ^ get_parity (a mod 2 ^ N) N) N)"

text \<open>Modelled from the spec: \<open>machine_div2k\<close> and \<open>clear_lower_bits\<close> of number.h.\<close>

definition machine_div2k :: "int \<Rightarrow> nat \<Rightarrow> int" where
  "machine_div2k b k = b div 2 ^ k"

definition clear_lower_bits :: "int \<Rightarrow> nat \<Rightarrow> int" where
  "clear_lower_bits x n = x - x mod 2 ^ n"

text \<open>\<open>compute_y_max(y0, a, lo0, hi, M)\<close>\<close>

definition compute_y_max :: "int \<Rightarrow> int \<Rightarrow> int \<Rightarrow> int \<Rightarrow> int \<Rightarrow> int" where
  "compute_y_max y0 a lo0 hi M =
     (let lo = (if lo0 > hi then lo0 - M else lo0);
          contained = (\<lambda>a_y. lo \<le> a_y \<and> a_y \<le> hi);
          delta_h = (\<lambda>a_y. div_floor (hi - a_y) a);
          k = div_ceil (lo - a * y0) M;
          kM = k * M;
          a_y0 = a * y0 + kM;
          delta0 = delta_h a_y0;
          y0h = y0 + delta0;
          a_y0h = a_y0 + a * delta0;
          y1l = y0h + 1;
          a_y1l = a_y0h + a - M
      in if \<not> contained a_y1l then y0h
         else
          (let delta1 = delta_h a_y1l;
               y1h = y1l + delta1;
               a_y1h = a_y1l + a * delta1;
               y2l = y1h + 1;
               a_y2l = a_y1h + a - M
           in if \<not> contained a_y2l then y1h
              else
               (let step = y1h - y0h;
                    alpha = a * step - M
                in if alpha = 0 then y0 + M
                   else
                    (let i = (if alpha < 0 then div_floor (lo - a_y1l) alpha
                              else div_floor (hi - a_y1h) alpha);
                         yih = y1h + i * step;
                         a_yih = a_y1h + i * alpha;
                         y_next = yih + 1;
                         a_y_next = a_yih + a - M
                     in if contained a_y_next then y_next + delta_h a_y_next else yih))))"

text \<open>
  \<open>while (y_min > y0) y_min -= M;\<close> of \<open>compute_y_min\<close>. The modulus is positive in every
  call of the code; for \<open>M \<le> 0\<close> the source loop would not end and the model stops.
\<close>

function sub_until :: "int \<Rightarrow> int \<Rightarrow> int \<Rightarrow> int" where
  "sub_until y y0 M = (if y > y0 \<and> M > 0 then sub_until (y - M) y0 M else y)"
  by pat_completeness auto
termination
  by (relation "measure (\<lambda>(y, y0, M). nat (y - y0))") auto

definition negateM :: "int \<Rightarrow> int \<Rightarrow> int" where
  "negateM M x = (if x = 0 then x else M - x)"

definition compute_y_min :: "int \<Rightarrow> int \<Rightarrow> int \<Rightarrow> int \<Rightarrow> int \<Rightarrow> int" where
  "compute_y_min y0 a lo hi M =
     sub_until (- compute_y_max (- y0) a (negateM M hi) (negateM M lo) M) y0 M"

definition is_valid :: "int \<Rightarrow> int \<Rightarrow> int \<Rightarrow> int \<Rightarrow> int \<Rightarrow> bool" where
  "is_valid a lo hi M y =
     (let a_y = (a * y) mod M
      in if lo \<le> hi then lo \<le> a_y \<and> a_y \<le> hi else a_y \<le> hi \<or> lo \<le> a_y)"

text \<open>The two refinement loops of \<open>compute_y_bounds\<close>; \<open>max_refinements\<close> is 100.\<close>

function refine_y_max :: "nat \<Rightarrow> int \<Rightarrow> int \<Rightarrow> int \<Rightarrow> int \<Rightarrow> int \<Rightarrow> int \<Rightarrow> int" where
  "refine_y_max i y_max y_max_max a lo hi M =
     (if y_max < y_max_max \<and> is_valid a lo hi M (y_max + 1) then
        (let y' = compute_y_max (y_max + 1) a lo hi M
         in if Suc i \<ge> 100 then y' else refine_y_max (Suc i) y' y_max_max a lo hi M)
      else y_max)"
  by pat_completeness auto
termination
  by (relation "measure (\<lambda>(i, y_max, y_max_max, a, lo, hi, M). 100 - i)") auto

function refine_y_min :: "nat \<Rightarrow> int \<Rightarrow> int \<Rightarrow> int \<Rightarrow> int \<Rightarrow> int \<Rightarrow> int \<Rightarrow> int" where
  "refine_y_min i y_min y_min_min a lo hi M =
     (if y_min > y_min_min \<and> is_valid a lo hi M (y_min - 1) then
        (let y' = compute_y_min (y_min - 1) a lo hi M
         in if Suc i \<ge> 100 then y' else refine_y_min (Suc i) y' y_min_min a lo hi M)
      else y_min)"
  by pat_completeness auto
termination
  by (relation "measure (\<lambda>(i, y_min, y_min_min, a, lo, hi, M). 100 - i)") auto

definition compute_y_bounds :: "int \<Rightarrow> int \<Rightarrow> int \<Rightarrow> int \<Rightarrow> int \<Rightarrow> int \<times> int" where
  "compute_y_bounds y0 a lo hi M =
     (let y_max_max = y0 + M - 1;
          y_max = refine_y_max 0 (compute_y_max y0 a lo hi M) y_max_max a lo hi M;
          y_min_min = y_max - M + 1;
          y_min = refine_y_min 0 y0 y_min_min a lo hi M;
          len = y_max - y_min + 1
      in if len \<ge> M then (0, M - 1) else (y_min mod M, y_max mod M))"

section \<open>Refinement of a candidate value (viable.cpp)\<close>

text \<open>
  \<open>fixed_bits_info\<close> (declared outside the sources): per bit of the variable its fixed
  value, if any, and the literals that justify it. The justifications of the external
  slicing component are given by the literals its \<open>explain_fixed\<close> reports.
\<close>

record fixed_bits_info =
  fixed :: "lbool list"
  just_src :: "literal list list"
  just_side_cond :: "literal list list"
  just_slicing :: "literal list list"

definition to_lbool :: "bool \<Rightarrow> lbool" where
  "to_lbool b = (if b then l_true else l_false)"

text \<open>
  The lambda \<open>add_justification(i)\<close> of \<open>extend_by_bits\<close>: the state is
  \<open>(src, side_cond, added_src, added_side_cond)\<close> of the source.
\<close>

type_synonym just_state =
  "signed_constraint list \<times> signed_constraint list \<times> literal set \<times> literal set"

fun add_src_lits :: "literal list \<Rightarrow> just_state \<Rightarrow> just_state" where
  "add_src_lits [] j = j"
| "add_src_lits (l # ls) (sr, sc, a_src, a_sc) =
     (if l \<in> a_src then add_src_lits ls (sr, sc, a_src, a_sc)
      else add_src_lits ls (sr @ [lit2cnstr l], sc, insert l a_src, a_sc))"

fun add_side_lits :: "literal list \<Rightarrow> just_state \<Rightarrow> just_state" where
  "add_side_lits [] j = j"
| "add_side_lits (l # ls) (sr, sc, a_src, a_sc) =
     (if l \<in> a_sc then add_side_lits ls (sr, sc, a_src, a_sc)
      else add_side_lits ls (sr, sc @ [lit2cnstr l], a_src, insert l a_sc))"

definition add_justification :: "fixed_bits_info \<Rightarrow> nat \<Rightarrow> just_state \<Rightarrow> just_state" where
  "add_justification fbi i j =
     add_src_lits (just_slicing fbi ! i)
       (add_side_lits (just_side_cond fbi ! i) (add_src_lits (just_src fbi ! i) j))"

text \<open>
  \<open>firstFail\<close>: one more than the highest bit position at which \<open>bound\<close> disagrees with a
  fixed bit, 0 when there is none. The search runs from position \<open>k\<close> downwards.
\<close>

fun first_fail :: "lbool list \<Rightarrow> int \<Rightarrow> nat \<Rightarrow> nat" where
  "first_fail fx bound 0 = 0"
| "first_fail fx bound (Suc i) =
     (if fx ! i \<noteq> l_undef \<and> to_lbool (bit bound i) \<noteq> fx ! i then Suc i
      else first_fail fx bound i)"

text \<open>The first loop of \<open>extend_by_bits\<close>, over the positions below \<open>firstFail\<close>.\<close>

fun low_bits ::
  "bool \<Rightarrow> fixed_bits_info \<Rightarrow> nat \<Rightarrow> nat list \<Rightarrow> just_state \<Rightarrow> bool list \<times> just_state" where
  "low_bits fwd fbi ff [] j = ([], j)"
| "low_bits fwd fbi ff (i # is) j =
     (if fixed fbi ! i \<noteq> l_undef then
        (let j' = (if i = ff - 1 \<or> fwd \<noteq> (fixed fbi ! i = l_false)
                   then add_justification fbi i j else j)
         in case low_bits fwd fbi ff is j' of (bs, j'') \<Rightarrow> ((fixed fbi ! i = l_true) # bs, j''))
      else (case low_bits fwd fbi ff is j of (bs, j'') \<Rightarrow> ((\<not> fwd) # bs, j'')))"

text \<open>The second loop, over the positions from \<open>firstFail\<close> upwards, with the carry.\<close>

fun high_bits ::
  "bool \<Rightarrow> fixed_bits_info \<Rightarrow> int \<Rightarrow> nat list \<Rightarrow> bool \<Rightarrow> just_state
     \<Rightarrow> bool list \<times> bool \<times> just_state" where
  "high_bits fwd fbi bound [] carry j = ([], carry, j)"
| "high_bits fwd fbi bound (i # is) carry j =
     (if fixed fbi ! i = l_undef then
        (let current = bit bound i in
         if carry then
           (if fwd then
              (if \<not> current
               then (case high_bits fwd fbi bound is False j of (bs, c, j') \<Rightarrow> (True # bs, c, j'))
               else (case high_bits fwd fbi bound is carry j of (bs, c, j') \<Rightarrow> (False # bs, c, j')))
            else
              (if current
               then (case high_bits fwd fbi bound is False j of (bs, c, j') \<Rightarrow> (False # bs, c, j'))
               else (case high_bits fwd fbi bound is carry j of (bs, c, j') \<Rightarrow> (True # bs, c, j'))))
         else (case high_bits fwd fbi bound is carry j of (bs, c, j') \<Rightarrow> (current # bs, c, j')))
      else
        (let j1 = (if carry then add_justification fbi i j else j)
         in case high_bits fwd fbi bound is carry j1 of
              (bs, c, j') \<Rightarrow> ((fixed fbi ! i = l_true) # bs, c, j')))"

text \<open>The value of a bit vector, least significant bit first.\<close>

fun bits_val :: "bool list \<Rightarrow> int" where
  "bits_val [] = 0"
| "bits_val (b # bs) = (if b then 1 else 0) + 2 * bits_val bs"

text \<open>
  \<open>viable::extend_by_bits<FORWARD>\<close>: the next value at or after \<open>bound\<close> (forward), or one
  more than the previous value at or before it (backward), that agrees with the fixed
  bits; 0 when the carry runs out of the top. \<open>k\<close> is the bit-width; the code asserts
  \<open>k == fixed.size()\<close>, and \<open>fbi.is_empty()\<close> is taken to be \<open>fixed.empty()\<close>. It also
  extends the justification lists \<open>src\<close> and \<open>side_cond\<close> of the new entry.
\<close>

definition extend_by_bits ::
  "bool \<Rightarrow> nat \<Rightarrow> int \<Rightarrow> fixed_bits_info \<Rightarrow> signed_constraint list \<times> signed_constraint list
     \<Rightarrow> int \<times> signed_constraint list \<times> signed_constraint list" where
  "extend_by_bits fwd k bound fbi ss =
     (if fixed fbi = [] then (bound, ss)
      else
       (let ff = first_fail (fixed fbi) bound k in
        if ff = 0 then (bound, ss)
        else
         (case low_bits fwd fbi ff [0 ..< ff] (fst ss, snd ss, {}, {}) of (lo_bs, j1) \<Rightarrow>
          (let carry0 = (fixed fbi ! (ff - 1) = (if fwd then l_false else l_true)) in
           case high_bits fwd fbi bound [ff ..< k] carry0 j1 of (hi_bs, carry, (src', sc', a1, a2)) \<Rightarrow>
             if carry then (0, src', sc')
             else (let ret = bits_val (lo_bs @ hi_bs)
                   in (if \<not> fwd then ret + 1 else ret, src', sc'))))))"

text \<open>\<open>viable::refine_bits<FORWARD>(v, val, fbi)\<close>\<close>

definition refine_bits ::
  "bool \<Rightarrow> pvar \<Rightarrow> int \<Rightarrow> fixed_bits_info \<Rightarrow> solver \<Rightarrow> (bool \<times> solver) option" where
  "refine_bits fwd v val fbi s =
     (if v < length (m_size s) then
        (case alloc_entry (m_viable s) of (ne, vi) \<Rightarrow>
         (case extend_by_bits fwd (m_size s ! v) val fbi (src ne, side_cond ne) of
            (new_val, src1, sc1) \<Rightarrow>
              if new_val = val
              then Some (True, s\<lparr> m_viable := vi\<lparr> m_alloc := m_alloc vi @ [eid ne] \<rparr> \<rparr>)
              else
               (case extend_by_bits (\<not> fwd) (m_size s ! v) val fbi (src1, sc1) of
                  (new_val2, src2, sc2) \<Rightarrow>
                    (let ne' = ne\<lparr> refined := True, coeff := 1, bit_width := m_size s ! v,
                                   src := src2, side_cond := sc2,
                                   interval :=
                                     (if fwd then eval_proper (Val new_val2) new_val2 (Val new_val) new_val
                                      else eval_proper (Val new_val) new_val (Val new_val2) new_val2) \<rparr>
                     in map_option (\<lambda>(b, s'). (False, s'))
                          (intersect_entry v ne' (s\<lparr> m_viable := vi \<rparr>))))))
      else None)"

text \<open>
  What \<open>refine_equal_lin\<close> derives from one entry \<open>e\<close> with coefficient \<open>a\<close> for the
  candidate \<open>val\<close> at bit-width \<open>N\<close>: nothing when \<open>a * val\<close> is outside the entry's
  interval, otherwise the interval of the new unit entry. \<open>VERIFY\<close> failures are errors.
\<close>

datatype 'a found = Skip | Err | Found 'a

definition equal_lin_interval :: "nat \<Rightarrow> int \<Rightarrow> entry \<Rightarrow> eval_interval found" where
  "equal_lin_interval N val e =
     (let mod_value = 2 ^ N;
          max_value = 2 ^ N - 1;
          coeff_val = (coeff e * val) mod mod_value
      in if \<not> currently_contains (interval e) coeff_val then Skip
         else if (hi_val (interval e) + 1) mod mod_value = lo_val (interval e) then
           (let a = coeff e;
                b = hi_val (interval e);
                parity_a = get_parity a N;
                parity_b = get_parity b N
            in if parity_a > parity_b then Found eval_full
               else if parity_a = 0 then
                 (case mult_inverse a N of
                    None \<Rightarrow> Err
                  | Some a_inv \<Rightarrow>
                      (let hi = (a_inv * b) mod mod_value;
                           lo = (hi + 1) mod mod_value
                       in Found (eval_proper (Val lo) lo (Val hi) hi)))
               else
                 (case pseudo_inverse a N of
                    None \<Rightarrow> Err
                  | Some a_inv \<Rightarrow>
                      (let k = parity_a;
                           N_minus_k = N - k;
                           two_to_N_minus_k = 2 ^ N_minus_k;
                           v0 = (a_inv * machine_div2k b k) mod two_to_N_minus_k;
                           vi = v0 + clear_lower_bits ((val - v0) mod mod_value) N_minus_k;
                           lo = (vi + 1) mod mod_value;
                           hi = (vi + two_to_N_minus_k) mod mod_value
                       in Found (eval_proper (Val lo) lo (Val hi) hi))))
         else
           (let hi_val_incl = (if hi_val (interval e) = 0 then max_value
                               else hi_val (interval e) - 1)
            in case compute_y_bounds val (coeff e) (lo_val (interval e)) hi_val_incl mod_value of
                 (lo, hi0) \<Rightarrow>
                   (let hi1 = hi0 + 1;
                        full = (lo = 0 \<and> hi1 = mod_value);
                        hi = (if hi1 = mod_value then 0 else hi1)
                    in if full then Found eval_full
                       else Found (eval_proper (Val lo) lo (Val hi) hi))))"

text \<open>The traversal of a ring until the first entry that yields something.\<close>

fun first_found :: "(entry \<Rightarrow> 'a found) \<Rightarrow> ring \<Rightarrow> (entry \<times> 'a) found" where
  "first_found f [] = Skip"
| "first_found f (e # es) =
     (case f e of Skip \<Rightarrow> first_found f es | Err \<Rightarrow> Err | Found x \<Rightarrow> Found (e, x))"

text \<open>The new unit entry built from \<open>e\<close> in \<open>refine_equal_lin\<close> and \<open>refine_disequal_lin\<close>.\<close>

definition refined_entry :: "entry \<Rightarrow> entry \<Rightarrow> eval_interval \<Rightarrow> entry" where
  "refined_entry ne e iv =
     ne\<lparr> refined := True, src := src e, side_cond := side_cond e, coeff := 1,
         bit_width := bit_width e, interval := iv \<rparr>"

text \<open>
  \<open>viable::refine_equal_lin(v, val)\<close>: the head of the ring is rotated first; the
  traversal starts at the old head.
\<close>

definition refine_equal_lin :: "pvar \<Rightarrow> int \<Rightarrow> solver \<Rightarrow> (bool \<times> solver) option" where
  "refine_equal_lin v val s =
     (let vi = m_viable s in
      if v < length (m_equal_lin vi) \<and> v < length (m_size s) then
        (let r = m_equal_lin vi ! v in
         if r = [] then Some (True, s)
         else
          (let s1 = s\<lparr> m_viable := vi\<lparr> m_equal_lin := (m_equal_lin vi)[v := rotate1 r] \<rparr> \<rparr> in
           case first_found (equal_lin_interval (m_size s ! v) val) r of
             Skip \<Rightarrow> Some (True, s1)
           | Err \<Rightarrow> None
           | Found (e, iv) \<Rightarrow>
               (case alloc_entry (m_viable s1) of (ne, vi') \<Rightarrow>
                  map_option (\<lambda>(b, s'). (False, s'))
                    (intersect_entry v (refined_entry ne e iv) (s1\<lparr> m_viable := vi' \<rparr>)))))
      else None)"

text \<open>
  What \<open>refine_disequal_lin\<close> derives from one entry: the entry carries \<open>p, q, r, s\<close> of
  \<open>p*v + q > r*v + s\<close> in its interval (\<open>lo_val\<close>, \<open>lo().val()\<close>, \<open>hi_val\<close>, \<open>hi().val()\<close>).
  Reading \<open>val()\<close> of a bound that is not a numeral, or \<open>src[0]\<close> of an empty vector, is an
  error.
\<close>

definition disequal_lin_interval :: "nat \<Rightarrow> int \<Rightarrow> entry \<Rightarrow> eval_interval found" where
  "disequal_lin_interval N val e =
     (case (m_symbolic (interval e), src e) of
        (Proper (Val q_) (Val s_), c0 # cs) \<Rightarrow>
          (let max_value = 2 ^ N - 1;
               mod_value = max_value + 1;
               p = lo_val (interval e);
               r = hi_val (interval e);
               a = (p * val + q_) mod mod_value;
               b = (r * val + s_) mod mod_value;
               np = mod_value - p;
               nr = mod_value - r;
               corr = (if is_negative c0 then 1 else 0);
               num = a - b + corr;
               delta_l =
                 (let l1 = div_floor b r;
                      l2 = (if p > r then div_ceil num (p - r) - 1 else val);
                      l3 = div_ceil num (p + nr) - 1;
                      l4 = div_ceil (mod_value - a) np - 1;
                      d1 = l3; d2 = min l1 l2; d3 = min l1 l4; d4 = min l2 l4;
                      dmax = max (max d1 d2) (max d3 d4)
                  in min val dmax);
               delta_u =
                 (let h1 = div_floor b nr;
                      h2 = (if r > p then div_ceil num (r - p) - 1 else max_value - val);
                      h3 = div_ceil num (np + r) - 1;
                      h4 = div_ceil (mod_value - a) p - 1;
                      d1 = h3; d2 = min h1 h2; d3 = min h1 h4; d4 = min h2 h4;
                      dmax = max (max d1 d2) (max d3 d4)
                  in min (max_value - val) dmax)
           in if a > b \<or> (is_negative c0 \<and> a = b) then
                (let lo = val - delta_l;
                     hi0 = val + delta_u + 1;
                     hi = (if hi0 = mod_value then 0 else hi0)
                 in Found (eval_proper (Val lo) lo (Val hi) hi))
              else Skip)
      | _ \<Rightarrow> Err)"

definition refine_disequal_lin :: "pvar \<Rightarrow> int \<Rightarrow> solver \<Rightarrow> (bool \<times> solver) option" where
  "refine_disequal_lin v val s =
     (let vi = m_viable s in
      if v < length (m_diseq_lin vi) \<and> v < length (m_size s) then
        (let r = m_diseq_lin vi ! v in
         if r = [] then Some (True, s)
         else
          (let s1 = s\<lparr> m_viable := vi\<lparr> m_diseq_lin := (m_diseq_lin vi)[v := rotate1 r] \<rparr> \<rparr> in
           case first_found (disequal_lin_interval (m_size s ! v) val) r of
             Skip \<Rightarrow> Some (True, s1)
           | Err \<Rightarrow> None
           | Found (e, iv) \<Rightarrow>
               (case alloc_entry (m_viable s1) of (ne, vi') \<Rightarrow>
                  map_option (\<lambda>(b, s'). (False, s'))
                    (intersect_entry v (refined_entry ne e iv) (s1\<lparr> m_viable := vi' \<rparr>)))))
      else None)"

text \<open>\<open>refine_viable<FORWARD>\<close>: the three refinements in order, with short-circuit.\<close>

definition refine_viable ::
  "bool \<Rightarrow> pvar \<Rightarrow> int \<Rightarrow> fixed_bits_info \<Rightarrow> solver \<Rightarrow> (bool \<times> solver) option" where
  "refine_viable fwd v val fbi s =
     (case refine_bits fwd v val fbi s of
        None \<Rightarrow> None
      | Some (b1, s1) \<Rightarrow>
          if \<not> b1 then Some (False, s1)
          else (case refine_equal_lin v val s1 of
                  None \<Rightarrow> None
                | Some (b2, s2) \<Rightarrow>
                    if \<not> b2 then Some (False, s2) else refine_disequal_lin v val s2))"

section \<open>Viable queries (viable.cpp)\<close>

text \<open>
  The external collaborators of the queries, as parameters.
  \<open>collect_bit_information\<close> depends on the slicing component and on \<open>simplify_clause\<close>,
  which are not among the sources: it is given by its result (did it succeed, and the
  fixed bits) for a variable and its equal-linear ring. The univariate fallback solver
  is given by what \<open>check()\<close> and \<open>model()\<close> answer after the constraints with the
  listed dependency literals were added, in that order; \<open>us_check_bits\<close> and
  \<open>us_model_bits\<close> are the answers after the bits listed (position and value, from
  \<open>add_bit0\<close> and \<open>add_bit1\<close>) were fixed as well.
\<close>

record oracles =
  collect_bit_information :: "pvar \<Rightarrow> ring \<Rightarrow> bool \<times> fixed_bits_info"
  us_check :: "pvar \<Rightarrow> literal list \<Rightarrow> lbool"
  us_model :: "pvar \<Rightarrow> literal list \<Rightarrow> int"
  us_check_bits :: "pvar \<Rightarrow> literal list \<Rightarrow> (nat \<times> bool) list \<Rightarrow> lbool"
  us_model_bits :: "pvar \<Rightarrow> literal list \<Rightarrow> (nat \<times> bool) list \<Rightarrow> int"

text \<open>
  \<open>univariate_solver::find_min(val)\<close> (univariate_solver.cpp): \<open>val\<close> starts as the
  current model; from the most significant bit down, a bit of \<open>val\<close> that is set is
  tried as 0. The first argument of the loop is \<open>k + 1\<close>, \<open>bs\<close> are the bits fixed so
  far. The result is the returned flag and the value left in \<open>val\<close>.
\<close>

fun find_min_loop ::
  "oracles \<Rightarrow> pvar \<Rightarrow> literal list \<Rightarrow> nat \<Rightarrow> (nat \<times> bool) list \<Rightarrow> int \<Rightarrow> bool \<times> int" where
  "find_min_loop orc v ls 0 bs val = (True, val)"
| "find_min_loop orc v ls (Suc k) bs val =
     (if \<not> bit val k then find_min_loop orc v ls k (bs @ [(k, False)]) val
      else (case us_check_bits orc v ls (bs @ [(k, False)]) of
              l_true \<Rightarrow>
                find_min_loop orc v ls k (bs @ [(k, False)])
                  (us_model_bits orc v ls (bs @ [(k, False)]))
            | l_false \<Rightarrow> find_min_loop orc v ls k (bs @ [(k, True)]) val
            | l_undef \<Rightarrow> (False, val)))"

definition find_min :: "oracles \<Rightarrow> pvar \<Rightarrow> nat \<Rightarrow> literal list \<Rightarrow> bool \<times> int" where
  "find_min orc v bw ls = find_min_loop orc v ls bw [] (us_model orc v ls)"

text \<open>\<open>univariate_solver::find_max(val)\<close>: a bit of \<open>val\<close> that is clear is tried as 1.\<close>

fun find_max_loop ::
  "oracles \<Rightarrow> pvar \<Rightarrow> literal list \<Rightarrow> nat \<Rightarrow> (nat \<times> bool) list \<Rightarrow> int \<Rightarrow> bool \<times> int" where
  "find_max_loop orc v ls 0 bs val = (True, val)"
| "find_max_loop orc v ls (Suc k) bs val =
     (if bit val k then find_max_loop orc v ls k (bs @ [(k, True)]) val
      else (case us_check_bits orc v ls (bs @ [(k, True)]) of
              l_true \<Rightarrow>
                find_max_loop orc v ls k (bs @ [(k, True)])
                  (us_model_bits orc v ls (bs @ [(k, True)]))
            | l_false \<Rightarrow> find_max_loop orc v ls k (bs @ [(k, False)]) val
            | l_undef \<Rightarrow> (False, val)))"

definition find_max :: "oracles \<Rightarrow> pvar \<Rightarrow> nat \<Rightarrow> literal list \<Rightarrow> bool \<times> int" where
  "find_max orc v bw ls = find_max_loop orc v ls bw [] (us_model orc v ls)"

datatype find_t = find_empty | singleton | multiple | resource_out

datatype query_t = q_has_viable | q_min_viable | q_max_viable | q_find_viable

text \<open>
  The \<open>for\<close> loop of \<open>is_viable\<close> over the entries before the last one: true when \<open>val\<close>
  is found inside an entry before the walk reaches an entry that starts above \<open>val\<close>.
\<close>

fun covered_before :: "ring \<Rightarrow> int \<Rightarrow> bool" where
  "covered_before [] val = False"
| "covered_before (e # es) val =
     (if currently_contains (interval e) val then True
      else if val < lo_val (interval e) then False
      else covered_before es val)"

definition is_viable :: "oracles \<Rightarrow> pvar \<Rightarrow> int \<Rightarrow> solver \<Rightarrow> (bool \<times> solver) option" where
  "is_viable orc v val s =
     (let vi = m_viable s in
      if v < length (m_units vi) \<and> v < length (m_equal_lin vi) \<and> v < length (m_size s) then
        (case collect_bit_information orc v (m_equal_lin vi ! v) of (ok, fbi) \<Rightarrow>
           if \<not> ok then Some (False, s)
           else
            (let r = get_entries (m_units vi ! v) (m_size s ! v) in
             if r = [] then refine_viable True v val fbi s
             else if currently_contains (interval (last r)) val then Some (False, s)
             else if covered_before (butlast r) val then Some (False, s)
             else refine_viable True v val fbi s))
      else None)"

text \<open>
  "find lower bound": \<open>do { if (!e contains lo) break; lo = e.hi_val; e = e.next; }
  while (e != first)\<close>. The result is \<open>lo\<close> and the entry at which the loop stopped
  (\<open>None\<close>: it came round to \<open>first\<close>).
\<close>

fun find_lo :: "ring \<Rightarrow> int \<Rightarrow> int \<times> entry option" where
  "find_lo [] lo = (lo, None)"
| "find_lo (e # es) lo =
     (if \<not> currently_contains (interval e) lo then (lo, Some e)
      else find_lo es (hi_val (interval e)))"

text \<open>"find upper bound": the same walk backwards from \<open>last\<close>; \<open>rs\<close> is the ring reversed.\<close>

fun find_hi :: "ring \<Rightarrow> int \<Rightarrow> int" where
  "find_hi [] hi = hi"
| "find_hi (e # rs) hi =
     (if \<not> currently_contains (interval e) hi then hi
      else find_hi rs (lo_val (interval e) - 1))"

text \<open>
  \<open>viable::query_find(v, lo, hi, fbi)\<close>: the answer (\<open>l_undef\<close> after a refinement), the
  bounds and the new state.
\<close>

definition query_find ::
  "pvar \<Rightarrow> fixed_bits_info \<Rightarrow> solver \<Rightarrow> (lbool \<times> int \<times> int \<times> solver) option" where
  "query_find v fbi s =
     (let vi = m_viable s in
      if v < length (m_units vi) \<and> v < length (m_size s) then
        (let max_value = 2 ^ (m_size s ! v) - 1;
             r = get_entries (m_units vi ! v) (m_size s ! v)
         in if r = [] then
              (case refine_viable True v 0 fbi s of
                 None \<Rightarrow> None
               | Some (b1, s1) \<Rightarrow>
                   if \<not> b1 then Some (l_undef, 0, max_value, s1)
                   else (case refine_viable False v max_value fbi s1 of
                           None \<Rightarrow> None
                         | Some (b2, s2) \<Rightarrow>
                             Some (if \<not> b2 then l_undef else l_true, 0, max_value, s2)))
            else if is_full (interval (hd r)) then
              Some (l_false, 0, max_value, s\<lparr> m_conflict := by_viable_interval v \<rparr>)
            else if lo_val (interval (last r)) < hi_val (interval (last r))
                    \<and> hi_val (interval (last r)) < max_value then
              (let lo = hi_val (interval (last r)) in
               case refine_viable True v lo fbi s of
                 None \<Rightarrow> None
               | Some (b1, s1) \<Rightarrow>
                   if \<not> b1 then Some (l_undef, lo, max_value, s1)
                   else (case refine_viable False v max_value fbi s1 of
                           None \<Rightarrow> None
                         | Some (b2, s2) \<Rightarrow>
                             Some (if \<not> b2 then l_undef else l_true, lo, max_value, s2)))
            else
              (let lo0 = (if currently_contains (interval (last r)) 0
                          then hi_val (interval (last r)) else 0)
               in case find_lo r lo0 of (lo, stop) \<Rightarrow>
                  if currently_contains (interval (case stop of None \<Rightarrow> hd r | Some e \<Rightarrow> e)) lo
                  then Some (l_false, lo, max_value, s\<lparr> m_conflict := by_viable_interval v \<rparr>)
                  else
                   (let hi = find_hi (rev r) max_value in
                    case refine_viable True v lo fbi s of
                      None \<Rightarrow> None
                    | Some (b1, s1) \<Rightarrow>
                        if \<not> b1 then Some (l_undef, lo, hi, s1)
                        else (case refine_viable False v hi fbi s1 of
                                None \<Rightarrow> None
                              | Some (b2, s2) \<Rightarrow>
                                  Some (if \<not> b2 then l_undef else l_true, lo, hi, s2)))))
      else None)"

text \<open>\<open>viable::query_min(v, lo, fbi)\<close>\<close>

definition query_min ::
  "pvar \<Rightarrow> fixed_bits_info \<Rightarrow> solver \<Rightarrow> (lbool \<times> int \<times> solver) option" where
  "query_min v fbi s =
     (let vi = m_viable s in
      if v < length (m_units vi) \<and> v < length (m_size s) then
        (let r = get_entries (m_units vi ! v) (m_size s ! v)
         in if r = [] then
              (case refine_viable True v 0 fbi s of
                 None \<Rightarrow> None
               | Some (b1, s1) \<Rightarrow> Some (if \<not> b1 then l_undef else l_true, 0, s1))
            else
              (let lo0 = (if currently_contains (interval (last r)) 0
                          then hi_val (interval (last r)) else 0);
                   lo = fst (find_lo r lo0)
               in case refine_viable True v lo fbi s of
                    None \<Rightarrow> None
                  | Some (b1, s1) \<Rightarrow> Some (if \<not> b1 then l_undef else l_true, lo, s1)))
      else None)"

text \<open>\<open>viable::query_max(v, hi, fbi)\<close>\<close>

definition query_max ::
  "pvar \<Rightarrow> fixed_bits_info \<Rightarrow> solver \<Rightarrow> (lbool \<times> int \<times> solver) option" where
  "query_max v fbi s =
     (let vi = m_viable s in
      if v < length (m_units vi) \<and> v < length (m_size s) then
        (let max_value = 2 ^ (m_size s ! v) - 1;
             r = get_entries (m_units vi ! v) (m_size s ! v)
         in if r = [] then
              (case refine_viable False v max_value fbi s of
                 None \<Rightarrow> None
               | Some (b1, s1) \<Rightarrow> Some (if \<not> b1 then l_undef else l_true, max_value, s1))
            else
              (let hi = find_hi (rev r) max_value
               in case refine_viable False v hi fbi s of
                    None \<Rightarrow> None
                  | Some (b1, s1) \<Rightarrow> Some (if \<not> b1 then l_undef else l_true, hi, s1)))
      else None)"

text \<open>
  The constraints handed to the univariate solver by \<open>query_fallback\<close>: first the
  sources of the refined unit entries, then, if those alone are satisfiable, the
  remaining constraints stored for the variable, from the back of the vector. Each
  literal is added once (\<open>added\<close>).
\<close>

fun add_lits :: "literal list \<Rightarrow> literal list \<Rightarrow> literal list" where
  "add_lits [] added = added"
| "add_lits (l # ls) added =
     (if l \<in> set added then add_lits ls added else add_lits ls (added @ [l]))"

fun add_refined :: "ring \<Rightarrow> literal list \<Rightarrow> literal list" where
  "add_refined [] added = added"
| "add_refined (e # es) added =
     add_refined es (if refined e then add_lits (map blit (src e)) added else added)"

text \<open>
  \<open>viable::query_fallback<mode>\<close> with \<open>query_find_fallback\<close>, \<open>query_min_fallback\<close> and
  \<open>query_max_fallback\<close>. The result carries \<open>lo\<close> and \<open>hi\<close>; a query for the minimum
  answers in \<open>lo\<close>, one for the maximum in \<open>hi\<close>. Walking an empty unit ring dereferences
  the null pointer, and \<open>has_viable\<close> is not implemented: both are errors.
\<close>

definition query_fallback ::
  "oracles \<Rightarrow> query_t \<Rightarrow> pvar \<Rightarrow> int \<Rightarrow> int \<Rightarrow> solver \<Rightarrow> (lbool \<times> int \<times> int \<times> solver) option" where
  "query_fallback orc mode v lo hi s =
     (let vi = m_viable s in
      if v < length (m_units vi) \<and> v < length (m_size s) \<and> v < length (m_fallback_constraints s)
      then
        (let r = get_entries (m_units vi ! v) (m_size s ! v) in
         if r = [] then None
         else
          (let added1 = add_refined r [] in
           case us_check orc v added1 of
             l_false \<Rightarrow> Some (l_false, lo, hi, s\<lparr> m_conflict := by_viable_fallback v \<rparr>)
           | l_undef \<Rightarrow> Some (l_undef, lo, hi, s)
           | l_true \<Rightarrow>
              (let added2 = add_lits (map blit (rev (m_fallback_constraints s ! v))) added1 in
               case us_check orc v added2 of
                 l_false \<Rightarrow> Some (l_false, lo, hi, s\<lparr> m_conflict := by_viable_fallback v \<rparr>)
               | l_undef \<Rightarrow> Some (l_undef, lo, hi, s)
               | l_true \<Rightarrow>
                  (case mode of
                     q_find_viable \<Rightarrow> Some (l_true, us_model orc v added2, - 1, s)
                   | q_min_viable \<Rightarrow>
                       (case find_min orc v (m_size s ! v) added2 of
                          (ok, x) \<Rightarrow> Some (if ok then l_true else l_undef, x, hi, s))
                   | q_max_viable \<Rightarrow>
                       (case find_max orc v (m_size s ! v) added2 of
                          (ok, x) \<Rightarrow> Some (if ok then l_true else l_undef, lo, x, s))
                   | q_has_viable \<Rightarrow> None))))
      else None)"

text \<open>One round of the refinement loop of \<open>viable::query<mode>\<close>.\<close>

definition query_round ::
  "query_t \<Rightarrow> pvar \<Rightarrow> fixed_bits_info \<Rightarrow> int \<Rightarrow> int \<Rightarrow> solver
     \<Rightarrow> (lbool \<times> int \<times> int \<times> solver) option" where
  "query_round mode v fbi lo hi s =
     (case mode of
        q_find_viable \<Rightarrow> query_find v fbi s
      | q_min_viable \<Rightarrow> map_option (\<lambda>(res, x, s'). (res, x, hi, s')) (query_min v fbi s)
      | q_max_viable \<Rightarrow> map_option (\<lambda>(res, x, s'). (res, lo, x, s')) (query_max v fbi s)
      | q_has_viable \<Rightarrow> None)"

text \<open>
  \<open>while (refinements--) { ... if (res != l_undef) return res; }\<close> followed by the
  fallback; the first argument is the value of \<open>refinements\<close>.
\<close>

fun query_loop ::
  "nat \<Rightarrow> oracles \<Rightarrow> query_t \<Rightarrow> pvar \<Rightarrow> fixed_bits_info \<Rightarrow> int \<Rightarrow> int \<Rightarrow> solver
     \<Rightarrow> (lbool \<times> int \<times> int \<times> solver) option" where
  "query_loop 0 orc mode v fbi lo hi s = query_fallback orc mode v lo hi s"
| "query_loop (Suc n) orc mode v fbi lo hi s =
     (case query_round mode v fbi lo hi s of
        None \<Rightarrow> None
      | Some (res, lo', hi', s') \<Rightarrow>
          if res \<noteq> l_undef then Some (res, lo', hi', s')
          else query_loop n orc mode v fbi lo' hi' s')"

definition refinement_budget :: nat where
  "refinement_budget = 1000"

text \<open>\<open>viable::query<mode>(v, result)\<close>\<close>

definition query ::
  "oracles \<Rightarrow> query_t \<Rightarrow> pvar \<Rightarrow> int \<Rightarrow> int \<Rightarrow> solver \<Rightarrow> (lbool \<times> int \<times> int \<times> solver) option" where
  "query orc mode v lo hi s =
     (if v < length (m_equal_lin (m_viable s)) then
        (case collect_bit_information orc v (m_equal_lin (m_viable s) ! v) of (ok, fbi) \<Rightarrow>
           if \<not> ok then Some (l_false, lo, hi, s\<lparr> m_conflict := by_bit_check v \<rparr>)
           else query_loop refinement_budget orc mode v fbi lo hi s)
      else None)"

definition find_viable2 ::
  "oracles \<Rightarrow> pvar \<Rightarrow> int \<Rightarrow> int \<Rightarrow> solver \<Rightarrow> (lbool \<times> int \<times> int \<times> solver) option" where
  "find_viable2 orc v lo hi s = query orc q_find_viable v lo hi s"

definition min_viable :: "oracles \<Rightarrow> pvar \<Rightarrow> int \<Rightarrow> solver \<Rightarrow> (lbool \<times> int \<times> solver) option" where
  "min_viable orc v lo s =
     map_option (\<lambda>(res, lo', hi', s'). (res, lo', s')) (query orc q_min_viable v lo 0 s)"

definition max_viable :: "oracles \<Rightarrow> pvar \<Rightarrow> int \<Rightarrow> solver \<Rightarrow> (lbool \<times> int \<times> solver) option" where
  "max_viable orc v hi s =
     map_option (\<lambda>(res, lo', hi', s'). (res, hi', s')) (query orc q_max_viable v 0 hi s)"

text \<open>
  \<open>find_t viable::find_viable(pvar v, rational& lo)\<close>: \<open>lo\<close> is the caller's variable, the
  local \<open>hi\<close> starts as 0. The result is the kind of answer, the witness and the state.
\<close>

definition find_viable ::
  "oracles \<Rightarrow> pvar \<Rightarrow> int \<Rightarrow> solver \<Rightarrow> (find_t \<times> int \<times> solver) option" where
  "find_viable orc v lo s =
     (case find_viable2 orc v lo 0 s of
        None \<Rightarrow> None
      | Some (res, lo', hi', s') \<Rightarrow>
          Some (case res of
                  l_true \<Rightarrow> (if hi' < 0 then multiple
                             else if lo' = hi' then singleton else multiple)
                | l_false \<Rightarrow> find_empty
                | l_undef \<Rightarrow> resource_out, lo', s'))"

text \<open>
  The refinement loop without the fallback: the first definite answer within \<open>n\<close>
  rounds, or \<open>l_undef\<close> with the state reached when all \<open>n\<close> rounds asked for another
  refinement.
\<close>

fun query_rounds ::
  "nat \<Rightarrow> query_t \<Rightarrow> pvar \<Rightarrow> fixed_bits_info \<Rightarrow> int \<Rightarrow> int \<Rightarrow> solver
     \<Rightarrow> (lbool \<times> int \<times> int \<times> solver) option" where
  "query_rounds 0 mode v fbi lo hi s = Some (l_undef, lo, hi, s)"
| "query_rounds (Suc n) mode v fbi lo hi s =
     (case query_round mode v fbi lo hi s of
        None \<Rightarrow> None
      | Some (res, lo', hi', s') \<Rightarrow>
          if res \<noteq> l_undef then Some (res, lo', hi', s')
          else query_rounds n mode v fbi lo' hi' s')"

text \<open>The number of rounds the loop runs when it starts with \<open>refinements = n\<close>.\<close>

fun rounds_run ::
  "nat \<Rightarrow> query_t \<Rightarrow> pvar \<Rightarrow> fixed_bits_info \<Rightarrow> int \<Rightarrow> int \<Rightarrow> solver \<Rightarrow> nat" where
  "rounds_run 0 mode v fbi lo hi s = 0"
| "rounds_run (Suc n) mode v fbi lo hi s =
     (case query_round mode v fbi lo hi s of
        None \<Rightarrow> 1
      | Some (res, lo', hi', s') \<Rightarrow>
          if res \<noteq> l_undef then 1 else Suc (rounds_run n mode v fbi lo' hi' s'))"

text \<open>The literals \<open>query_fallback\<close> has handed to the univariate solver at its first check.\<close>

definition refined_lits :: "pvar \<Rightarrow> solver \<Rightarrow> literal list" where
  "refined_lits v s = add_refined (get_entries (m_units (m_viable s) ! v) (m_size s ! v)) []"

text \<open>The literals \<open>query_fallback\<close> has handed to the univariate solver at its second check.\<close>

definition fallback_lits :: "pvar \<Rightarrow> solver \<Rightarrow> literal list" where
  "fallback_lits v s =
     add_lits (map blit (rev (m_fallback_constraints s ! v)))
       (add_refined (get_entries (m_units (m_viable s) ! v) (m_size s ! v)) [])"

section \<open>Decisions (solver.cpp)\<close>

text \<open>\<open>solver::assign_core(v, val, j)\<close>\<close>

definition assign_core :: "pvar \<Rightarrow> int \<Rightarrow> justification \<Rightarrow> solver \<Rightarrow> solver option" where
  "assign_core v val j s =
     (if v < length (m_value s) \<and> v < length (m_justification s) then
        (let s1 = (case j of
                     decision l \<Rightarrow> s\<lparr> m_num_decisions := m_num_decisions s + 1 \<rparr>
                   | _ \<Rightarrow> s\<lparr> m_num_propagations := m_num_propagations s + 1 \<rparr>)
         in Some (s1\<lparr> m_value := (m_value s1)[v := val],
                       m_search := m_search s1 @ [assignment v],
                       m_trail := m_trail s1 @ [assign_i],
                       m_justification := (m_justification s1)[v := j] \<rparr>))
      else None)"

text \<open>
  \<open>solver::pdecide(v)\<close>: \<open>empty\<close> raises a conflict, \<open>singleton\<close> assigns the value as a
  propagation at the current level, \<open>multiple\<close> opens a new level and assigns the value as
  a decision. The local \<open>val\<close> starts as 0.
\<close>

definition pdecide :: "oracles \<Rightarrow> pvar \<Rightarrow> solver \<Rightarrow> solver option" where
  "pdecide orc v s =
     (case find_viable orc v 0 s of
        None \<Rightarrow> None
      | Some (t, val, s1) \<Rightarrow>
          (case t of
             find_empty \<Rightarrow>
               Some (s1\<lparr> m_free_pvars := insert v (m_free_pvars s1), m_conflict := by_var v \<rparr>)
           | singleton \<Rightarrow> assign_core v val (propagation (m_level s1)) s1
           | multiple \<Rightarrow>
               (let s2 = push_level s1 in assign_core v val (decision (m_level s2)) s2)
           | resource_out \<Rightarrow> Some s1))"

section \<open>A query that exhausts its refinement budget\<close>

text \<open>
  A 4-bit variable with the unit interval \<open>[0, 5)\<close> and the equal-linear entry
  \<open>3 * v == 1\<close>, whose refinements go to the layer of bit-width 3. The queries read the
  layer of the variable's own width only, so every round refines again at the candidate 5.
  Three constraints are stored for the fallback; the univariate solver finds the third
  one unsatisfiable.
\<close>

definition fbi_none :: fixed_bits_info where
  "fbi_none = \<lparr> fixed = [], just_src = [], just_side_cond = [], just_slicing = [] \<rparr>"

definition orc_q :: oracles where
  "orc_q = \<lparr> collect_bit_information = (\<lambda>v r. (True, fbi_none)),
              us_check = (\<lambda>v ls. if Lit 3 False \<in> set ls then l_false else l_true),
              us_model = (\<lambda>v ls. 11),
              us_check_bits = (\<lambda>v ls bs. l_undef),
              us_model_bits = (\<lambda>v ls bs. 11) \<rparr>"

definition unit_q :: entry where
  "unit_q = \<lparr> eid = 0, interval = eval_proper (Val 0) 0 (Val 5) 5, side_cond = [],
               src = [SC 1 True], coeff = 1, bit_width = 4, refined = False \<rparr>"

definition equal_q :: entry where
  "equal_q = \<lparr> eid = 1, interval = eval_proper (Val 2) 2 (Val 1) 1, side_cond = [],
                src = [SC 2 True], coeff = 3, bit_width = 3, refined = False \<rparr>"

definition refined_q :: entry where
  "refined_q = \<lparr> eid = 2, interval = eval_proper (Val 12) 12 (Val 11) 11, side_cond = [],
                  src = [SC 2 True], coeff = 1, bit_width = 3, refined = True \<rparr>"

definition solver_q :: solver where
  "solver_q = solver0\<lparr>
     m_viable := viable0\<lparr> m_units := [[\<lparr> l_bit_width = 4, entries = [unit_q] \<rparr>,
                                        \<lparr> l_bit_width = 3, entries = [refined_q] \<rparr>]],
                           m_equal_lin := [[equal_q]], m_diseq_lin := [[]],
                           m_vtrail := [(0, unit_e, unit_q, 0), (0, equal_e, equal_q, 1),
                                        (0, unit_e, refined_q, 2)],
                           m_alloc := [3], m_fresh := 4 \<rparr>,
     m_fallback_constraints := [[SC 1 True, SC 2 True, SC 3 True]],
     m_value := [0], m_justification := [unassigned], m_pwatch := [[]], m_activity := [0],
     m_vars := [Term 0], m_size := [4], m_free_pvars := {},
     m_trail := [add_var_i, viable_add_i, viable_add_i, viable_add_i] \<rparr>"

text \<open>A univariate solver that finds every set of constraints satisfiable, with model 11.\<close>

definition orc_sat :: oracles where
  "orc_sat = \<lparr> collect_bit_information = (\<lambda>v r. (True, fbi_none)),
                us_check = (\<lambda>v ls. l_true),
                us_model = (\<lambda>v ls. 11),
                us_check_bits = (\<lambda>v ls bs. l_false),
                us_model_bits = (\<lambda>v ls bs. 11) \<rparr>"

section \<open>An equation with an even coefficient\<close>

text \<open>
  An 8-bit variable whose only entry is the equal-linear entry of the equation
  \<open>2 * v == b\<close>, that is the forbidden interval \<open>[b + 1, b)\<close> for \<open>2 * v\<close>.
\<close>

definition equation_2v :: "int \<Rightarrow> entry" where
  "equation_2v b = \<lparr> eid = 0, interval = eval_proper (Val (b + 1)) (b + 1) (Val b) b,
                      side_cond = [], src = [SC 1 True], coeff = 2, bit_width = 8,
                      refined = False \<rparr>"

definition solver_2v :: "int \<Rightarrow> solver" where
  "solver_2v b = solver0\<lparr>
     m_viable := viable0\<lparr> m_units := [[]], m_equal_lin := [[equation_2v b]],
                           m_diseq_lin := [[]], m_vtrail := [(0, equal_e, equation_2v b, 0)],
                           m_fresh := 1 \<rparr>,
     m_fallback_constraints := [[SC 1 True]],
     m_value := [0], m_justification := [unassigned], m_pwatch := [[]], m_activity := [0],
     m_vars := [Term 0], m_size := [8], m_free_pvars := {0},
     m_trail := [add_var_i, viable_add_i] \<rparr>"

section \<open>The watch-list invariant (solver.cpp)\<close>





text \<open>\<open>num_watches\<close>: the occurrences of a signed constraint in all watch lists.\<close>

definition num_watches :: "signed_constraint \<Rightarrow> solver \<Rightarrow> nat" where
  "num_watches sc s = sum_list (map (\<lambda>wlist. count_list wlist sc) (m_pwatch s))"





section \<open>Membership in an evaluated interval\<close>

lemma diff_mod_cases:
  fixes a b M :: int
  assumes "0 \<le> a" "a < M" "0 \<le> b" "b < M"
  shows "(a - b) mod M = (if b \<le> a then a - b else a - b + M)"
proof (cases "b \<le> a")
  case True
  with assms have "0 \<le> a - b" "a - b < M" by auto
  then show ?thesis using True by simp
next
  case False
  with assms have "0 \<le> a - b + M" "a - b + M < M" by auto
  then have "(a - b + M) mod M = a - b + M" by (rule mod_pos_pos_trivial)
  then have "(a - b) mod M = a - b + M" by (simp only: mod_add_self2)
  then show ?thesis using False by simp
qed

text \<open>
  C4. For a proper evaluated interval whose concrete bounds \<open>lo\<close>, \<open>hi\<close> lie in
  \<open>[0, 2^w)\<close> (what \<open>eval_interval::proper\<close> asserts) and a value \<open>t\<close> in \<open>[0, 2^w)\<close>,
  \<open>currently_contains t\<close> holds exactly when \<open>(t - lo) mod 2^w < (hi - lo) mod 2^w\<close>;
  an interval with \<open>lo > hi\<close> contains exactly \<open>[lo, 2^w) \<union> [0, hi)\<close>, and one with
  \<open>lo = hi\<close> contains nothing.
\<close>

theorem currently_contains_membership:
  assumes "0 \<le> lo" "lo < 2 ^ w" "0 \<le> hi" "hi < 2 ^ w" "0 \<le> t" "t < 2 ^ w"
  shows "(currently_contains (eval_proper l lo h hi) t
            \<longleftrightarrow> (t - lo) mod 2 ^ w < (hi - lo) mod 2 ^ w)
       \<and> (lo > hi \<longrightarrow> (currently_contains (eval_proper l lo h hi) t
            \<longleftrightarrow> t \<in> {lo ..< 2 ^ w} \<union> {0 ..< hi}))
       \<and> (lo = hi \<longrightarrow> \<not> currently_contains (eval_proper l lo h hi) t)"
proof -
  have c: "currently_contains (eval_proper l lo h hi) t
             = (if lo \<le> hi then lo \<le> t \<and> t < hi else t < hi \<or> t \<ge> lo)"
    by (simp add: currently_contains_def eval_proper_def is_full_def lo_val_def hi_val_def)
  have m1: "(t - lo) mod 2 ^ w = (if lo \<le> t then t - lo else t - lo + 2 ^ w)"
    using assms by (intro diff_mod_cases) auto
  have m2: "(hi - lo) mod 2 ^ w = (if lo \<le> hi then hi - lo else hi - lo + 2 ^ w)"
    using assms by (intro diff_mod_cases) auto
  have p1: "currently_contains (eval_proper l lo h hi) t
              \<longleftrightarrow> (t - lo) mod 2 ^ w < (hi - lo) mod 2 ^ w"
    unfolding c m1 m2 using assms by auto
  have p2: "lo > hi \<longrightarrow> (currently_contains (eval_proper l lo h hi) t
              \<longleftrightarrow> t \<in> {lo ..< 2 ^ w} \<union> {0 ..< hi})"
    unfolding c using assms by auto
  have p3: "lo = hi \<longrightarrow> \<not> currently_contains (eval_proper l lo h hi) t"
    unfolding c by auto
  from p1 p2 p3 show ?thesis by blast
qed

theorem currently_contains_membership_witness:
  "(currently_contains (eval_proper (Val 12) 12 (Val 3) 3) 1
       \<longleftrightarrow> ((1::int) - 12) mod 2 ^ 4 < (3 - 12) mod 2 ^ 4)
   \<and> currently_contains (eval_proper (Val 12) 12 (Val 3) 3) 1
   \<and> \<not> currently_contains (eval_proper (Val 12) 12 (Val 3) 3) 5
   \<and> \<not> currently_contains (eval_proper (Val 7) 7 (Val 7) 7) 7"
  using currently_contains_membership [of 12 4 3 1 "Val 12" "Val 3"]
        currently_contains_membership [of 12 4 3 5 "Val 12" "Val 3"]
        currently_contains_membership [of 7 4 7 7 "Val 7" "Val 7"]
  by simp

section \<open>Restarts\<close>


declare pop_levels_loop.simps [simp del]

lemma erase_watch_var_rfields: "erase_watch_var v c s = Some s' \<Longrightarrow> rfields s' = rfields s"
  by (auto simp: erase_watch_var_def rfields_def split: if_splits)

lemma erase_watch_rfields: "erase_watch c s = Some s' \<Longrightarrow> rfields s' = rfields s"
  unfolding erase_watch_def Let_def
  by (auto split: option.splits if_splits dest!: erase_watch_var_rfields)

lemma deactivate_rfields: "deactivate_constraint c s = Some s' \<Longrightarrow> rfields s' = rfields s"
  unfolding deactivate_constraint_def
  by (drule erase_watch_rfields) (simp add: rfields_def)

lemma undo_instr_rfields:
  "undo_instr i n t rp s = Some (s', n', rp') \<Longrightarrow> rfields s' = rfields s"
  unfolding undo_instr_def
  by (cases i)
     (auto simp: pop_qhead_def del_var_def rfields_def Let_def
           split: option.splits if_splits search_item.splits
           dest!: deactivate_rfields)

lemma pop_levels_loop_rfields:
  "pop_levels_loop tr n t rp s = Some (s', rp') \<Longrightarrow> rfields s' = rfields s"
proof (induction tr arbitrary: n rp s)
  case Nil
  then show ?case by (auto simp: pop_levels_loop.simps split: if_splits)
next
  case (Cons i tr)
  show ?case
  proof (cases "n = 0")
    case True
    with Cons.prems show ?thesis by (simp add: pop_levels_loop.simps)
  next
    case False
    with Cons.prems obtain s1 n1 rp1 where
      u: "undo_instr i n t rp s = Some (s1, n1, rp1)" and
      l: "pop_levels_loop tr n1 t rp1 (s1\<lparr> m_trail := rev tr \<rparr>) = Some (s', rp')"
      by (auto simp: pop_levels_loop.simps split: option.splits)
    from Cons.IH [OF l] have "rfields s' = rfields (s1\<lparr> m_trail := rev tr \<rparr>)" .
    also have "\<dots> = rfields s1" by (simp add: rfields_def)
    also have "\<dots> = rfields s" using u by (rule undo_instr_rfields)
    finally show ?thesis .
  qed
qed

lemma pop_levels_rfields: "pop_levels n s = Some s' \<Longrightarrow> rfields s' = rfields s"
  unfolding pop_levels_def
  by (auto split: if_splits option.splits dest!: pop_levels_loop_rfields simp: rfields_def)


lemma undo_instr_level:
  "undo_instr i n t rp s = Some (s', n', rp') \<Longrightarrow>
     m_level s' - n' = m_level s - n \<and> m_base_levels s' = m_base_levels s"
  unfolding undo_instr_def
  by (cases i)
     (auto simp: pop_qhead_def del_var_def Let_def deactivate_constraint_def erase_watch_def
                 erase_watch_var_def
           split: option.splits if_splits search_item.splits)

lemma pop_levels_loop_level:
  "pop_levels_loop tr n t rp s = Some (s', rp') \<Longrightarrow>
     m_level s' = m_level s - n \<and> m_base_levels s' = m_base_levels s"
proof (induction tr arbitrary: n rp s)
  case Nil
  then show ?case by (auto simp: pop_levels_loop.simps split: if_splits)
next
  case (Cons i tr)
  show ?case
  proof (cases "n = 0")
    case True
    with Cons.prems show ?thesis by (simp add: pop_levels_loop.simps)
  next
    case False
    with Cons.prems obtain s1 n1 rp1 where
      u: "undo_instr i n t rp s = Some (s1, n1, rp1)" and
      l: "pop_levels_loop tr n1 t rp1 (s1\<lparr> m_trail := rev tr \<rparr>) = Some (s', rp')"
      by (auto simp: pop_levels_loop.simps split: option.splits)
    from Cons.IH [OF l] undo_instr_level [OF u] show ?thesis by simp
  qed
qed

lemma pop_levels_level:
  "pop_levels n s = Some s' \<Longrightarrow> m_level s' = m_level s - n \<and> m_base_levels s' = m_base_levels s"
  unfolding pop_levels_def
  by (auto split: if_splits option.splits dest!: pop_levels_loop_level)

lemma base_level_upd [simp]: "base_level (s\<lparr> m_num_restarts := x \<rparr>) = base_level s"
  by (simp add: base_level_def)

text \<open>
  C9. A restart is suppressed while fewer than two decision levels exist above the base
  level: \<open>should_restart\<close> is false whenever \<open>base_level() + 2 > m_level\<close>, the main loop
  restarts only when \<open>should_restart\<close> holds (so only with \<open>base_level() + 2 \<le> m_level\<close>,
  which is two levels above the base when the unsigned sum does not wrap), and
  \<open>restart\<close> pops to the base level and sets the next threshold to \<open>m_restart_init\<close> times
  the next Luby value.
\<close>

theorem restart_suppressed_below_two_levels:
  "(base_level s + 2 > m_level s \<longrightarrow> \<not> should_restart s)
   \<and> (check_sat_action cd gc s = a_restart \<longrightarrow> should_restart s \<and> base_level s + 2 \<le> m_level s)
   \<and> (check_sat_action cd gc s = a_restart \<longrightarrow> unat (base_level s) + 2 < 2 ^ 32
         \<longrightarrow> unat (base_level s) + 2 \<le> unat (m_level s))
   \<and> (restart get_luby s = Some s' \<longrightarrow>
         m_restart_threshold s' = m_restart_init s * get_luby (m_luby_idx s + 1)
       \<and> m_luby_idx s' = m_luby_idx s + 1
       \<and> m_conflicts_at_restart s' = m_num_conflicts s
       \<and> m_level s' = base_level s \<and> base_level s' = base_level s)"
proof -
  have a: "base_level s + 2 > m_level s \<longrightarrow> \<not> should_restart s"
    by (simp add: should_restart_def)
  have b: "check_sat_action cd gc s = a_restart \<longrightarrow> should_restart s \<and> base_level s + 2 \<le> m_level s"
    by (auto simp: check_sat_action_def should_restart_def should_simplify_def split: if_splits)
  have c: "check_sat_action cd gc s = a_restart \<longrightarrow> unat (base_level s) + 2 < 2 ^ 32
         \<longrightarrow> unat (base_level s) + 2 \<le> unat (m_level s)"
  proof (intro impI)
    assume r: "check_sat_action cd gc s = a_restart" and n: "unat (base_level s) + 2 < 2 ^ 32"
    from r b have "base_level s + 2 \<le> m_level s" by simp
    then have "unat (base_level s + 2) \<le> unat (m_level s)" by (simp add: word_le_nat_alt)
    moreover have "unat (base_level s + 2) = unat (base_level s) + 2"
      using n by (simp add: unat_word_ariths)
    ultimately show "unat (base_level s) + 2 \<le> unat (m_level s)" by simp
  qed
  have d: "restart get_luby s = Some s' \<longrightarrow>
         m_restart_threshold s' = m_restart_init s * get_luby (m_luby_idx s + 1)
       \<and> m_luby_idx s' = m_luby_idx s + 1
       \<and> m_conflicts_at_restart s' = m_num_conflicts s
       \<and> m_level s' = base_level s \<and> base_level s' = base_level s"
  proof
    assume "restart get_luby s = Some s'"
    then obtain s2 where
      p: "pop_levels (m_level s - base_level s) (s\<lparr> m_num_restarts := m_num_restarts s + 1 \<rparr>) = Some s2"
      and s': "s' = s2\<lparr> m_conflicts_at_restart := m_num_conflicts s2,
                        m_luby_idx := m_luby_idx s2 + 1,
                        m_restart_threshold := m_restart_init s2 * get_luby (m_luby_idx s2 + 1) \<rparr>"
      by (auto simp: restart_def Let_def base_level_upd)
    from pop_levels_rfields [OF p] have f: "m_restart_init s2 = m_restart_init s"
      "m_luby_idx s2 = m_luby_idx s" "m_num_conflicts s2 = m_num_conflicts s"
      by (simp_all add: rfields_def)
    from pop_levels_level [OF p] have l: "m_level s2 = base_level s" "m_base_levels s2 = m_base_levels s"
      by simp_all
    show "m_restart_threshold s' = m_restart_init s * get_luby (m_luby_idx s + 1)
       \<and> m_luby_idx s' = m_luby_idx s + 1
       \<and> m_conflicts_at_restart s' = m_num_conflicts s
       \<and> m_level s' = base_level s \<and> base_level s' = base_level s"
      using f l by (simp add: s' base_level_def)
  qed
  from a b c d show ?thesis by blast
qed

lemma restart_solver_r:
  "map_option (\<lambda>s. (m_restart_threshold s, m_level s, m_luby_idx s)) (restart (\<lambda>i. i + 1) solver_r)
     = Some (200, 0, 1)"
  by (simp add: restart_def solver_r_def solver0_def base_level_def pop_levels_def
        pop_levels_loop.simps undo_instr_def vback_def)

theorem restart_suppressed_below_two_levels_witness:
  "check_sat_action True False solver_r = a_restart
   \<and> unat (base_level solver_r) + 2 \<le> unat (m_level solver_r)
   \<and> (\<exists>s'. restart (\<lambda>i. i + 1) solver_r = Some s' \<and> m_restart_threshold s' = 100 * 2 \<and> m_level s' = 0)
   \<and> base_level (solver_r\<lparr> m_level := 1 \<rparr>) + 2 > m_level (solver_r\<lparr> m_level := 1 \<rparr>)
   \<and> \<not> should_restart (solver_r\<lparr> m_level := 1 \<rparr>)"
proof -
  have 1: "check_sat_action True False solver_r = a_restart"
    by (simp add: check_sat_action_def solver_r_def solver0_def is_conflict_def can_propagate_def
          should_simplify_def should_restart_def base_level_def)
  have 2: "unat (base_level solver_r) + 2 < 2 ^ 32"
    by (simp add: solver_r_def solver0_def base_level_def)
  have 3: "base_level (solver_r\<lparr> m_level := 1 \<rparr>) + 2 > m_level (solver_r\<lparr> m_level := 1 \<rparr>)"
    by (simp add: solver_r_def solver0_def base_level_def)
  note t = restart_suppressed_below_two_levels
  from t [of solver_r True False "\<lambda>i. i + 1"] 1 2
  have 4: "unat (base_level solver_r) + 2 \<le> unat (m_level solver_r)" by blast
  from restart_solver_r obtain s' where
    r: "restart (\<lambda>i. i + 1) solver_r = Some s'" and l: "m_level s' = 0" by auto
  have i: "m_restart_init solver_r = 100" "m_luby_idx solver_r = 0"
    by (simp_all add: solver_r_def solver0_def)
  from t [of solver_r True False "\<lambda>i. i + 1" s'] r i
  have "m_restart_threshold s' = 100 * 2" by simp
  with r l
  have 5: "\<exists>s'. restart (\<lambda>i. i + 1) solver_r = Some s' \<and> m_restart_threshold s' = 100 * 2 \<and> m_level s' = 0"
    by blast
  from t [of "solver_r\<lparr> m_level := 1 \<rparr>" True False "\<lambda>i. i + 1"] 3
  have 6: "\<not> should_restart (solver_r\<lparr> m_level := 1 \<rparr>)" by blast
  from 1 4 5 3 6 show ?thesis by blast
qed

section \<open>Backjumping\<close>


lemma popped_zero [simp]: "popped tr 0 = []"
  by (cases tr) auto











lemma undo_viable_instrs_assign:
  "is_assign_instr i \<Longrightarrow> undo_viable_instrs (i # is) vi = undo_viable_instrs is vi"
  by (auto simp: is_assign_instr_def)





lemma is_assign_instr_simps [simp]:
  "is_assign_instr assign_i" "is_assign_instr assign_bool_i"
  by (simp_all add: is_assign_instr_def)





















section \<open>The refinement budget and the fallback\<close>

declare sub_until.simps [simp del] refine_y_max.simps [simp del] refine_y_min.simps [simp del]

lemma query_loop_rounds:
  "query_loop n orc mode v fbi lo hi s =
     (case query_rounds n mode v fbi lo hi s of
        None \<Rightarrow> None
      | Some (res, lo', hi', s') \<Rightarrow>
          if res \<noteq> l_undef then Some (res, lo', hi', s')
          else query_fallback orc mode v lo' hi' s')"
  by (induction n arbitrary: lo hi s) (auto split: option.splits)

lemma rounds_run_le: "rounds_run n mode v fbi lo hi s \<le> n"
  by (induction n arbitrary: lo hi s) (auto split: option.splits)

lemma query_rounds_fixpoint:
  assumes "query_round mode v fbi lo hi s = Some (l_undef, lo, hi, s)"
  shows "query_rounds n mode v fbi lo hi s = Some (l_undef, lo, hi, s)"
  using assms by (induction n) auto

lemma rounds_run_fixpoint:
  assumes "query_round mode v fbi lo hi s = Some (l_undef, lo, hi, s)"
  shows "rounds_run n mode v fbi lo hi s = n"
  using assms by (induction n) auto

lemma set_add_lits: "set (add_lits ls added) = set ls \<union> set added"
  by (induction ls arbitrary: added) auto

lemma set_add_refined:
  "set (add_refined r added) = set added \<union> (\<Union>e \<in> {e \<in> set r. refined e}. blit ` set (src e))"
  by (induction r arbitrary: added) (auto simp: set_add_lits)

lemma set_fallback_lits:
  "set (fallback_lits v s) =
     blit ` set (m_fallback_constraints s ! v)
     \<union> (\<Union>e \<in> {e \<in> set (get_entries (m_units (m_viable s) ! v) (m_size s ! v)). refined e}.
           blit ` set (src e))"
  by (auto simp: fallback_lits_def set_add_lits set_add_refined)

lemma equal_q_5: "equal_lin_interval 4 5 equal_q = Found (eval_proper (Val 12) 12 (Val 11) 11)"
  by code_simp

lemma query_round_solver_q:
  "query_round q_find_viable 0 fbi_none 5 15 solver_q = Some (l_undef, 5, 15, solver_q)"
  apply (simp add: query_round_def query_find_def solver_q_def solver0_def viable0_def
        get_entries_def unit_q_def is_full_def eval_proper_def
        lo_val_def hi_val_def refine_viable_def refine_bits_def alloc_entry_def blank_entry_def
        extend_by_bits_def fbi_none_def refine_equal_lin_def equal_q_5 Let_def)
  apply (simp add: equal_q_def refined_q_def refined_entry_def intersect_entry_def
        intersect_ring_def is_currently_empty_def is_proper_def currently_contains_i_def
        is_full_def eval_proper_def lo_val_def hi_val_def
        set_entries_def eval_full_def Let_def)
  done

lemma query_fallback_find:
  assumes "query_fallback orc q_find_viable v lo hi s = Some (res, lo', hi', s')"
  shows "(res = l_true \<longrightarrow> hi' = - 1 \<and> lo' = us_model orc v (fallback_lits v s) \<and> s' = s)"
  using assms unfolding query_fallback_def fallback_lits_def Let_def
  by (auto split: if_splits lbool.splits)

lemma find_viable_fallback:
  assumes "v < length (m_equal_lin (m_viable s))"
      and "collect_bit_information orc v (m_equal_lin (m_viable s) ! v) = (True, fbi)"
      and "query_rounds refinement_budget q_find_viable v fbi lo 0 s = Some (l_undef, lo1, hi1, s1)"
  shows "find_viable2 orc v lo 0 s = query_fallback orc q_find_viable v lo1 hi1 s1"
  using assms by (simp add: find_viable2_def query_def query_loop_rounds)

text \<open>
  C10. A \<open>find_viable\<close> query whose refinement rounds all asked for another refinement
  is answered by \<open>query_fallback\<close>. Its answer is never \<open>singleton\<close>: on success the
  fallback returns the model of the univariate solver as \<open>lo\<close> together with
  \<open>hi = -1\<close>, which \<open>find_viable\<close> maps to \<open>multiple\<close>, and \<open>pdecide\<close> then opens a
  new level and records the assignment as a decision of that level.
\<close>

theorem fallback_never_singleton:
  assumes "v < length (m_equal_lin (m_viable s))"
      and "collect_bit_information orc v (m_equal_lin (m_viable s) ! v) = (True, fbi)"
      and "query_rounds refinement_budget q_find_viable v fbi lo 0 s = Some (l_undef, lo1, hi1, s1)"
      and "find_viable orc v lo s = Some (t, w, s')"
  shows "t \<noteq> singleton
       \<and> (t = multiple \<longrightarrow>
            query_fallback orc q_find_viable v lo1 hi1 s1 = Some (l_true, w, - 1, s1)
          \<and> w = us_model orc v (fallback_lits v s1) \<and> s' = s1)
       \<and> (t = multiple \<longrightarrow> lo = 0 \<longrightarrow>
            pdecide orc v s = assign_core v w (decision (m_level s1 + 1)) (push_level s1)
          \<and> (\<forall>s2. pdecide orc v s = Some s2 \<longrightarrow>
                m_justification s2 ! v = decision (m_level s2) \<and> m_level s2 = m_level s1 + 1
              \<and> m_trail s2 = m_trail s1 @ [inc_level_i, assign_i]))"
proof -
  from find_viable_fallback [OF assms(1-3)] have
    fv: "find_viable2 orc v lo 0 s = query_fallback orc q_find_viable v lo1 hi1 s1" .
  from assms(4) obtain res hi' where
    q: "query_fallback orc q_find_viable v lo1 hi1 s1 = Some (res, w, hi', s')" and
    t: "t = (case res of
               l_true \<Rightarrow> (if hi' < 0 then multiple else if w = hi' then singleton else multiple)
             | l_false \<Rightarrow> find_empty
             | l_undef \<Rightarrow> resource_out)"
    by (auto simp: find_viable_def fv split: option.splits)
  from query_fallback_find [OF q] have
    h: "res = l_true \<longrightarrow> hi' = - 1 \<and> w = us_model orc v (fallback_lits v s1) \<and> s' = s1" .
  have 1: "t \<noteq> singleton" using t h by (cases res) auto
  have r: "t = multiple \<Longrightarrow> res = l_true" using t by (cases res) auto
  have 2: "t = multiple \<longrightarrow>
            query_fallback orc q_find_viable v lo1 hi1 s1 = Some (l_true, w, - 1, s1)
          \<and> w = us_model orc v (fallback_lits v s1) \<and> s' = s1"
    using q h r by auto
  have 3: "t = multiple \<longrightarrow> lo = 0 \<longrightarrow>
            pdecide orc v s = assign_core v w (decision (m_level s1 + 1)) (push_level s1)
          \<and> (\<forall>s2. pdecide orc v s = Some s2 \<longrightarrow>
                m_justification s2 ! v = decision (m_level s2) \<and> m_level s2 = m_level s1 + 1
              \<and> m_trail s2 = m_trail s1 @ [inc_level_i, assign_i])"
  proof (intro impI)
    assume m: "t = multiple" and z: "lo = 0"
    from 2 m have s': "s' = s1" by simp
    have p: "pdecide orc v s = assign_core v w (decision (m_level s1 + 1)) (push_level s1)"
      using assms(4) m z s' by (simp add: pdecide_def push_level_def Let_def)
    have "\<forall>s2. assign_core v w (decision (m_level s1 + 1)) (push_level s1) = Some s2 \<longrightarrow>
                m_justification s2 ! v = decision (m_level s2) \<and> m_level s2 = m_level s1 + 1
              \<and> m_trail s2 = m_trail s1 @ [inc_level_i, assign_i]"
      by (auto simp: assign_core_def push_level_def Let_def split: if_splits)
    with p show "pdecide orc v s = assign_core v w (decision (m_level s1 + 1)) (push_level s1)
          \<and> (\<forall>s2. pdecide orc v s = Some s2 \<longrightarrow>
                m_justification s2 ! v = decision (m_level s2) \<and> m_level s2 = m_level s1 + 1
              \<and> m_trail s2 = m_trail s1 @ [inc_level_i, assign_i])"
      by simp
  qed
  from 1 2 3 show ?thesis by blast
qed

lemma query_rounds_solver_q:
  "query_rounds refinement_budget q_find_viable 0 fbi_none lo hi solver_q
     = Some (l_undef, 5, 15, solver_q)"
proof -
  have r: "query_round q_find_viable 0 fbi_none lo hi solver_q = Some (l_undef, 5, 15, solver_q)"
    using query_round_solver_q by (simp add: query_round_def)
  have e: "refinement_budget = Suc 999" by (simp add: refinement_budget_def)
  have "query_rounds (Suc 999) q_find_viable 0 fbi_none lo hi solver_q
          = query_rounds 999 q_find_viable 0 fbi_none 5 15 solver_q"
    by (simp only: query_rounds.simps r) simp
  then show ?thesis
    using query_rounds_fixpoint [OF query_round_solver_q, of 999] by (simp only: e)
qed

lemma fallback_sat_solver_q:
  "query_fallback orc_sat q_find_viable 0 5 15 solver_q = Some (l_true, 11, - 1, solver_q)"
  by (simp add: query_fallback_def orc_sat_def solver_q_def solver0_def viable0_def
        get_entries_def unit_q_def Let_def)

theorem fallback_never_singleton_witness:
  "find_viable orc_sat 0 0 solver_q = Some (multiple, 11, solver_q)
   \<and> multiple \<noteq> singleton
   \<and> (\<exists>s2. pdecide orc_sat 0 solver_q = Some s2
          \<and> m_justification s2 ! 0 = decision (m_level s2) \<and> m_level s2 = m_level solver_q + 1)"
proof -
  have a: "0 < length (m_equal_lin (m_viable solver_q))"
    by (simp add: solver_q_def viable0_def)
  have b: "collect_bit_information orc_sat 0 (m_equal_lin (m_viable solver_q) ! 0) = (True, fbi_none)"
    by (simp add: orc_sat_def)
  note c = query_rounds_solver_q [of 0 0]
  have f: "find_viable orc_sat 0 0 solver_q = Some (multiple, 11, solver_q)"
    using find_viable_fallback [OF a b c] fallback_sat_solver_q by (simp add: find_viable_def)
  note t = fallback_never_singleton [OF a b c f]
  have d: "assign_core 0 11 (decision (m_level solver_q + 1)) (push_level solver_q) \<noteq> None"
    by (simp add: assign_core_def push_level_def solver_q_def solver0_def)
  from t have p: "pdecide orc_sat 0 solver_q
                   = assign_core 0 11 (decision (m_level solver_q + 1)) (push_level solver_q)"
    by simp
  with d obtain s2 where s2: "pdecide orc_sat 0 solver_q = Some s2" by auto
  with t have "m_justification s2 ! 0 = decision (m_level s2) \<and> m_level s2 = m_level solver_q + 1"
    by simp
  with f s2 show ?thesis by blast
qed

lemma distinct_add_lits: "distinct added \<Longrightarrow> distinct (add_lits ls added)"
  by (induction ls arbitrary: added) auto

lemma distinct_add_refined: "distinct added \<Longrightarrow> distinct (add_refined r added)"
  by (induction r arbitrary: added) (auto simp: distinct_add_lits)

lemma set_refined_lits:
  "set (refined_lits v s) =
     (\<Union>e \<in> {e \<in> set (get_entries (m_units (m_viable s) ! v) (m_size s ! v)). refined e}.
           blit ` set (src e))"
  by (auto simp: refined_lits_def set_add_refined)

lemma query_fallback_answer:
  assumes "v < length (m_units (m_viable s))" "v < length (m_size s)"
      and "v < length (m_fallback_constraints s)"
      and "get_entries (m_units (m_viable s) ! v) (m_size s ! v) \<noteq> []"
  shows "query_fallback orc mode v lo hi s =
     (case us_check orc v (refined_lits v s) of
        l_false \<Rightarrow> Some (l_false, lo, hi, s\<lparr> m_conflict := by_viable_fallback v \<rparr>)
      | l_undef \<Rightarrow> Some (l_undef, lo, hi, s)
      | l_true \<Rightarrow>
         (case us_check orc v (fallback_lits v s) of
            l_false \<Rightarrow> Some (l_false, lo, hi, s\<lparr> m_conflict := by_viable_fallback v \<rparr>)
          | l_undef \<Rightarrow> Some (l_undef, lo, hi, s)
          | l_true \<Rightarrow>
             (case mode of
                q_find_viable \<Rightarrow> Some (l_true, us_model orc v (fallback_lits v s), - 1, s)
              | q_min_viable \<Rightarrow>
                  (case find_min orc v (m_size s ! v) (fallback_lits v s) of
                     (ok, x) \<Rightarrow> Some (if ok then l_true else l_undef, x, hi, s))
              | q_max_viable \<Rightarrow>
                  (case find_max orc v (m_size s ! v) (fallback_lits v s) of
                     (ok, x) \<Rightarrow> Some (if ok then l_true else l_undef, lo, x, s))
              | q_has_viable \<Rightarrow> None)))"
  using assms
  by (simp add: query_fallback_def refined_lits_def fallback_lits_def Let_def
        split: lbool.splits query_t.splits)

text \<open>
  C3. For each kind of query the refinement loop runs at most 1000 rounds. The query is
  the first definite answer of these rounds. When every round asked for another
  refinement, the answer is that of the univariate solver: it is first given the
  sources of the refined unit entries of the variable, and, if it finds them
  satisfiable, the constraints stored for the variable as well, each literal once.
  \<open>l_false\<close> of either check is the answer \<open>l_false\<close> with the conflict
  \<open>by_viable_fallback\<close>, \<open>l_undef\<close> is the answer \<open>l_undef\<close>, and after two \<open>l_true\<close>
  the answer is read from the solver that holds all these constraints.
\<close>

theorem refinement_budget_then_fallback:
  assumes "v < length (m_equal_lin (m_viable s))"
      and "collect_bit_information orc v (m_equal_lin (m_viable s) ! v) = (True, fbi)"
  shows "rounds_run refinement_budget mode v fbi lo hi s \<le> 1000
       \<and> query orc mode v lo hi s =
           (case query_rounds refinement_budget mode v fbi lo hi s of
              None \<Rightarrow> None
            | Some (res, lo1, hi1, s1) \<Rightarrow>
                if res \<noteq> l_undef then Some (res, lo1, hi1, s1)
                else query_fallback orc mode v lo1 hi1 s1)
       \<and> (\<forall>lo1 hi1 s1.
             query_rounds refinement_budget mode v fbi lo hi s = Some (l_undef, lo1, hi1, s1)
             \<longrightarrow> v < length (m_units (m_viable s1)) \<longrightarrow> v < length (m_size s1)
             \<longrightarrow> v < length (m_fallback_constraints s1)
             \<longrightarrow> get_entries (m_units (m_viable s1) ! v) (m_size s1 ! v) \<noteq> []
             \<longrightarrow> query orc mode v lo hi s =
                   (case us_check orc v (refined_lits v s1) of
                      l_false \<Rightarrow> Some (l_false, lo1, hi1, s1\<lparr> m_conflict := by_viable_fallback v \<rparr>)
                    | l_undef \<Rightarrow> Some (l_undef, lo1, hi1, s1)
                    | l_true \<Rightarrow>
                       (case us_check orc v (fallback_lits v s1) of
                          l_false \<Rightarrow>
                            Some (l_false, lo1, hi1, s1\<lparr> m_conflict := by_viable_fallback v \<rparr>)
                        | l_undef \<Rightarrow> Some (l_undef, lo1, hi1, s1)
                        | l_true \<Rightarrow>
                           (case mode of
                              q_find_viable \<Rightarrow>
                                Some (l_true, us_model orc v (fallback_lits v s1), - 1, s1)
                            | q_min_viable \<Rightarrow>
                                (case find_min orc v (m_size s1 ! v) (fallback_lits v s1) of
                                   (ok, x) \<Rightarrow> Some (if ok then l_true else l_undef, x, hi1, s1))
                            | q_max_viable \<Rightarrow>
                                (case find_max orc v (m_size s1 ! v) (fallback_lits v s1) of
                                   (ok, x) \<Rightarrow> Some (if ok then l_true else l_undef, lo1, x, s1))
                            | q_has_viable \<Rightarrow> None)))
               \<and> set (refined_lits v s1) =
                   (\<Union>e \<in> {e \<in> set (get_entries (m_units (m_viable s1) ! v) (m_size s1 ! v)).
                                 refined e}. blit ` set (src e))
               \<and> set (fallback_lits v s1) =
                   blit ` set (m_fallback_constraints s1 ! v) \<union> set (refined_lits v s1)
               \<and> distinct (refined_lits v s1) \<and> distinct (fallback_lits v s1))"
proof -
  have 1: "rounds_run refinement_budget mode v fbi lo hi s \<le> 1000"
    using rounds_run_le [of refinement_budget] by (simp add: refinement_budget_def)
  have 2: "query orc mode v lo hi s =
           (case query_rounds refinement_budget mode v fbi lo hi s of
              None \<Rightarrow> None
            | Some (res, lo1, hi1, s1) \<Rightarrow>
                if res \<noteq> l_undef then Some (res, lo1, hi1, s1)
                else query_fallback orc mode v lo1 hi1 s1)"
    using assms by (simp add: query_def query_loop_rounds)
  have 3: "query orc mode v lo hi s =
                   (case us_check orc v (refined_lits v s1) of
                      l_false \<Rightarrow> Some (l_false, lo1, hi1, s1\<lparr> m_conflict := by_viable_fallback v \<rparr>)
                    | l_undef \<Rightarrow> Some (l_undef, lo1, hi1, s1)
                    | l_true \<Rightarrow>
                       (case us_check orc v (fallback_lits v s1) of
                          l_false \<Rightarrow>
                            Some (l_false, lo1, hi1, s1\<lparr> m_conflict := by_viable_fallback v \<rparr>)
                        | l_undef \<Rightarrow> Some (l_undef, lo1, hi1, s1)
                        | l_true \<Rightarrow>
                           (case mode of
                              q_find_viable \<Rightarrow>
                                Some (l_true, us_model orc v (fallback_lits v s1), - 1, s1)
                            | q_min_viable \<Rightarrow>
                                (case find_min orc v (m_size s1 ! v) (fallback_lits v s1) of
                                   (ok, x) \<Rightarrow> Some (if ok then l_true else l_undef, x, hi1, s1))
                            | q_max_viable \<Rightarrow>
                                (case find_max orc v (m_size s1 ! v) (fallback_lits v s1) of
                                   (ok, x) \<Rightarrow> Some (if ok then l_true else l_undef, lo1, x, s1))
                            | q_has_viable \<Rightarrow> None)))"
    if r: "query_rounds refinement_budget mode v fbi lo hi s = Some (l_undef, lo1, hi1, s1)"
      and b: "v < length (m_units (m_viable s1))" "v < length (m_size s1)"
             "v < length (m_fallback_constraints s1)"
             "get_entries (m_units (m_viable s1) ! v) (m_size s1 ! v) \<noteq> []"
    for lo1 hi1 s1
  proof -
    have "query orc mode v lo hi s = query_fallback orc mode v lo1 hi1 s1"
      using r by (simp add: 2)
    then show ?thesis by (simp only: query_fallback_answer [OF b])
  qed
  have 4: "set (fallback_lits v s1) =
             blit ` set (m_fallback_constraints s1 ! v) \<union> set (refined_lits v s1)" for s1
    by (auto simp: fallback_lits_def refined_lits_def set_add_lits)
  have 5: "distinct (refined_lits v s1)" "distinct (fallback_lits v s1)" for s1
    by (simp_all add: refined_lits_def fallback_lits_def distinct_add_lits distinct_add_refined)
  show ?thesis
    apply (intro conjI allI impI)
          apply (rule 1)
         apply (rule 2)
        apply (rule 3; assumption)
       apply (rule set_refined_lits)
      apply (rule 4)
     apply (rule 5)
    apply (rule 5)
    done
qed

lemma rounds_run_solver_q:
  "rounds_run refinement_budget q_find_viable 0 fbi_none lo hi solver_q = 1000"
proof -
  have r: "query_round q_find_viable 0 fbi_none lo hi solver_q = Some (l_undef, 5, 15, solver_q)"
    using query_round_solver_q by (simp add: query_round_def)
  have e: "refinement_budget = Suc 999" by (simp add: refinement_budget_def)
  have "rounds_run (Suc 999) q_find_viable 0 fbi_none lo hi solver_q
          = Suc (rounds_run 999 q_find_viable 0 fbi_none 5 15 solver_q)"
    by (simp only: rounds_run.simps r) simp
  then show ?thesis
    using rounds_run_fixpoint [OF query_round_solver_q, of 999] by (simp only: e)
qed

lemma lits_solver_q:
  "refined_lits 0 solver_q = []"
  "fallback_lits 0 solver_q = [Lit 3 False, Lit 2 False, Lit 1 False]"
  by (simp_all add: refined_lits_def fallback_lits_def solver_q_def solver0_def viable0_def
        get_entries_def unit_q_def blit_def)

theorem refinement_budget_then_fallback_witness:
  "rounds_run refinement_budget q_find_viable 0 fbi_none 0 0 solver_q = 1000
   \<and> us_check orc_q 0 (refined_lits 0 solver_q) = l_true
   \<and> us_check orc_q 0 (fallback_lits 0 solver_q) = l_false
   \<and> query orc_q q_find_viable 0 0 0 solver_q
       = Some (l_false, 5, 15, solver_q\<lparr> m_conflict := by_viable_fallback 0 \<rparr>)
   \<and> us_check orc_sat 0 (fallback_lits 0 solver_q) = l_true
   \<and> query orc_sat q_find_viable 0 0 0 solver_q = Some (l_true, 11, - 1, solver_q)
   \<and> fallback_lits 0 solver_q = [Lit 3 False, Lit 2 False, Lit 1 False]"
proof -
  have a: "0 < length (m_equal_lin (m_viable solver_q))"
    by (simp add: solver_q_def viable0_def)
  have bq: "collect_bit_information orc_q 0 (m_equal_lin (m_viable solver_q) ! 0) = (True, fbi_none)"
    by (simp add: orc_q_def)
  have bs: "collect_bit_information orc_sat 0 (m_equal_lin (m_viable solver_q) ! 0) = (True, fbi_none)"
    by (simp add: orc_sat_def)
  note c = query_rounds_solver_q [of 0 0]
  have d: "0 < length (m_units (m_viable solver_q))" "0 < length (m_size solver_q)"
          "0 < length (m_fallback_constraints solver_q)"
          "get_entries (m_units (m_viable solver_q) ! 0) (m_size solver_q ! 0) \<noteq> []"
    by (simp_all add: solver_q_def solver0_def viable0_def get_entries_def)
  have uq: "us_check orc_q 0 (refined_lits 0 solver_q) = l_true"
           "us_check orc_q 0 (fallback_lits 0 solver_q) = l_false"
    by (simp_all add: lits_solver_q orc_q_def)
  have us: "us_check orc_sat 0 (refined_lits 0 solver_q) = l_true"
           "us_check orc_sat 0 (fallback_lits 0 solver_q) = l_true"
           "us_model orc_sat 0 (fallback_lits 0 solver_q) = 11"
    by (simp_all add: orc_sat_def)
  note tq = refinement_budget_then_fallback [OF a bq, of q_find_viable 0 0]
  note ts = refinement_budget_then_fallback [OF a bs, of q_find_viable 0 0]
  from tq [THEN conjunct2, THEN conjunct2, rule_format, OF c d, THEN conjunct1] have
    q: "query orc_q q_find_viable 0 0 0 solver_q
       = Some (l_false, 5, 15, solver_q\<lparr> m_conflict := by_viable_fallback 0 \<rparr>)"
    by (simp add: uq)
  from ts [THEN conjunct2, THEN conjunct2, rule_format, OF c d, THEN conjunct1] have
    q2: "query orc_sat q_find_viable 0 0 0 solver_q = Some (l_true, 11, - 1, solver_q)"
    by (simp add: us)
  from rounds_run_solver_q [of 0 0] uq q us(2) q2 lits_solver_q(2) show ?thesis by blast
qed

section \<open>Refinement of an equation with an even coefficient\<close>

lemma contains_iff_mod:
  fixes M :: int
  assumes "0 \<le> lo" "lo < M" "0 \<le> hi" "hi < M" "0 \<le> t" "t < M"
  shows "currently_contains (eval_proper l lo h hi) t \<longleftrightarrow> (t - lo) mod M < (hi - lo) mod M"
proof -
  have c: "currently_contains (eval_proper l lo h hi) t
             = (if lo \<le> hi then lo \<le> t \<and> t < hi else t < hi \<or> t \<ge> lo)"
    by (simp add: currently_contains_def eval_proper_def is_full_def lo_val_def hi_val_def)
  have m1: "(t - lo) mod M = (if lo \<le> t then t - lo else t - lo + M)"
    using assms by (intro diff_mod_cases) auto
  have m2: "(hi - lo) mod M = (if lo \<le> hi then hi - lo else hi - lo + M)"
    using assms by (intro diff_mod_cases) auto
  show ?thesis unfolding c m1 m2 using assms by auto
qed

lemma get_parity_le: "get_parity a N \<le> N"
  by (induction a N rule: get_parity.induct) auto

lemma get_parity_dvd: "2 ^ get_parity a N dvd a"
proof (induction a N rule: get_parity.induct)
  case (1 a)
  then show ?case by simp
next
  case (2 a N)
  show ?case
  proof (cases "odd a")
    case True
    then show ?thesis by simp
  next
    case False
    with 2 have "2 ^ get_parity (a div 2) N dvd a div 2" by simp
    then have "2 * 2 ^ get_parity (a div 2) N dvd 2 * (a div 2)" by (rule mult_dvd_mono [OF dvd_refl])
    moreover have "2 * (a div 2) = a" using False by simp
    ultimately show ?thesis using False by simp
  qed
qed

lemma get_parity_odd: "get_parity a N < N \<Longrightarrow> odd (a div 2 ^ get_parity a N)"
proof (induction a N rule: get_parity.induct)
  case (1 a)
  then show ?case by simp
next
  case (2 a N)
  show ?case
  proof (cases "odd a")
    case True
    then show ?thesis by simp
  next
    case False
    with 2 have "odd (a div 2 div 2 ^ get_parity (a div 2) N)" by simp
    moreover have "a div 2 div 2 ^ get_parity (a div 2) N = a div (2 * 2 ^ get_parity (a div 2) N)"
      by (simp add: zdiv_zmult2_eq)
    ultimately show ?thesis using False by simp
  qed
qed

lemma get_parity_lt: "a mod 2 ^ N \<noteq> 0 \<Longrightarrow> get_parity a N < N"
proof (induction a N rule: get_parity.induct)
  case (1 a)
  then show ?case by simp
next
  case (2 a N)
  show ?case
  proof (cases "odd a")
    case True
    then show ?thesis by simp
  next
    case False
    have "a mod (2 * 2 ^ N) = 2 * (a div 2 mod 2 ^ N) + a mod 2"
      by (rule zmod_zmult2_eq) simp
    with 2(2) False have "a div 2 mod 2 ^ N \<noteq> 0" by auto
    with 2(1) False show ?thesis by simp
  qed
qed

lemma newton_step:
  fixes a x :: int
  assumes "2 ^ min j N dvd 1 - a * x" and "1 \<le> j"
  shows "2 ^ min (Suc j) N dvd 1 - a * ((x * (2 - a * x)) mod 2 ^ N)"
proof -
  let ?e = "1 - a * x"
  let ?y = "x * (2 - a * x)"
  have sq: "1 - a * ?y = ?e * ?e" by (simp add: algebra_simps)
  have "2 ^ min j N * 2 ^ min j N dvd ?e * ?e" by (intro mult_dvd_mono assms(1))
  then have d2: "(2::int) ^ (min j N + min j N) dvd 1 - a * ?y" by (simp add: sq power_add)
  have "min (Suc j) N \<le> min j N + min j N" using assms(2) by auto
  then have "(2::int) ^ min (Suc j) N dvd 2 ^ (min j N + min j N)" by (rule le_imp_power_dvd)
  from this d2 have d3: "(2::int) ^ min (Suc j) N dvd 1 - a * ?y" by (rule dvd_trans)
  have "(2::int) ^ N dvd a * ?y - a * (?y mod 2 ^ N)"
  proof -
    have "a * ?y - a * (?y mod 2 ^ N) = a * (2 ^ N * (?y div 2 ^ N))"
      by (simp add: algebra_simps minus_mod_eq_mult_div [symmetric])
    then show ?thesis by simp
  qed
  moreover have "(2::int) ^ min (Suc j) N dvd 2 ^ N" by (rule le_imp_power_dvd) simp
  ultimately have d4: "(2::int) ^ min (Suc j) N dvd a * ?y - a * (?y mod 2 ^ N)"
    using dvd_trans by blast
  have "1 - a * (?y mod 2 ^ N) = (1 - a * ?y) + (a * ?y - a * (?y mod 2 ^ N))" by simp
  with d3 d4 show ?thesis by (metis dvd_add)
qed

lemma newton_inv_dvd:
  "2 ^ min j N dvd 1 - a * x \<Longrightarrow> 1 \<le> j \<Longrightarrow>
     2 ^ min (j + n) N dvd 1 - a * newton_inv n a (2 ^ N) x"
proof (induction n arbitrary: x j)
  case 0
  then show ?case by simp
next
  case (Suc n)
  from newton_step [OF Suc.prems]
  have "2 ^ min (Suc j) N dvd 1 - a * ((x * (2 - a * x)) mod 2 ^ N)" .
  from Suc.IH [OF this] show ?case by simp
qed

lemma mult_inverse_odd:
  assumes "odd a"
  shows "\<exists>x. mult_inverse a N = Some x \<and> (a * x) mod 2 ^ N = 1 mod 2 ^ N"
proof -
  let ?x = "newton_inv N a (2 ^ N) (1 mod 2 ^ N)"
  have s: "2 ^ min 1 N dvd 1 - a * (1 mod 2 ^ N)"
  proof (cases N)
    case 0
    then show ?thesis by simp
  next
    case (Suc m)
    have "(1::int) \<le> 2 ^ m" by simp
    then have "(1::int) < 2 * 2 ^ m" by arith
    then have "(1::int) < 2 ^ N" using Suc by simp
    then have "(1::int) mod 2 ^ N = 1" by (intro mod_pos_pos_trivial) simp_all
    moreover have "min 1 N = 1" using Suc by simp
    ultimately show ?thesis using assms by simp
  qed
  from newton_inv_dvd [OF s, of N] have "2 ^ N dvd 1 - a * ?x" by simp
  then have "2 ^ N dvd a * ?x - 1" by (simp add: dvd_diff_commute)
  then have "(a * ?x) mod 2 ^ N = 1 mod 2 ^ N" by (simp only: mod_eq_dvd_iff)
  then show ?thesis by (simp add: mult_inverse_def Let_def)
qed

lemma grid_v0:
  fixes c ainv b :: int
  assumes kN: "k \<le> N"
      and inv: "(c * ainv) mod 2 ^ N = 1 mod 2 ^ N"
      and kb: "2 ^ k dvd b" and b: "0 \<le> b" "b < 2 ^ N"
  shows "(2 ^ k * c * ((ainv * (b div 2 ^ k)) mod 2 ^ (N - k))) mod 2 ^ N = b"
proof -
  let ?K = "2 ^ k :: int" and ?P = "2 ^ (N - k) :: int" and ?M = "2 ^ N :: int"
  let ?y = "ainv * (b div ?K)"
  have M: "?M = ?K * ?P" using kN by (simp add: power_add [symmetric])
  have Kb: "?K * (b div ?K) = b" using kb by simp
  have "?K * (?y mod ?P) = (?K * ?y) mod ?M" unfolding M by (simp only: mult_mod_right)
  then have "(?K * c * (?y mod ?P)) mod ?M = (c * ((?K * ?y) mod ?M)) mod ?M"
    by (simp add: mult.assoc mult.left_commute)
  also have "\<dots> = (c * (?K * ?y)) mod ?M" by (simp only: mod_mult_right_eq)
  also have "c * (?K * ?y) = (c * ainv) * (?K * (b div ?K))" by (simp add: algebra_simps)
  also have "\<dots> = (c * ainv) * b" by (simp only: Kb)
  also have "((c * ainv) * b) mod ?M = ((c * ainv) mod ?M * b) mod ?M"
    by (simp only: mod_mult_left_eq)
  also have "\<dots> = (1 mod ?M * b) mod ?M" by (simp only: inv)
  also have "\<dots> = (1 * b) mod ?M" by (simp only: mod_mult_left_eq)
  also have "\<dots> = b" using b by simp
  finally show ?thesis .
qed

lemma grid_interval:
  fixes c ainv b val :: int
  assumes kN: "k \<le> N"
      and inv: "(c * ainv) mod 2 ^ N = 1 mod 2 ^ N"
      and kb: "2 ^ k dvd b" and b: "0 \<le> b" "b < 2 ^ N"
      and val: "0 \<le> val" "val < 2 ^ N"
      and ns: "(2 ^ k * c * val) mod 2 ^ N \<noteq> b"
      and v0: "v0 = (ainv * (b div 2 ^ k)) mod 2 ^ (N - k)"
      and vi: "vi = v0 + clear_lower_bits ((val - v0) mod 2 ^ N) (N - k)"
      and lo: "lo = (vi + 1) mod 2 ^ N"
      and hi: "hi = (vi + 2 ^ (N - k)) mod 2 ^ N"
  shows "(2 ^ k * c * (lo - 1)) mod 2 ^ N = b"
    and "(2 ^ k * c * hi) mod 2 ^ N = b"
    and "(hi - lo) mod 2 ^ N = 2 ^ (N - k) - 1"
    and "(val - lo) mod 2 ^ N < 2 ^ (N - k) - 1"
proof -
  let ?K = "2 ^ k :: int" and ?P = "2 ^ (N - k) :: int" and ?M = "2 ^ N :: int"
  let ?a = "?K * c"
  let ?x = "(val - v0) mod ?M"
  let ?r = "?x mod ?P"
  have M: "?M = ?K * ?P" using kN by (simp add: power_add [symmetric])
  have P1: "1 \<le> ?P" by simp
  have PM: "?P \<le> ?M" by (rule power_increasing) simp_all
  have a0: "(?a * v0) mod ?M = b" unfolding v0 by (rule grid_v0 [OF kN inv kb b])
  have vi': "vi = v0 + ?x - ?r" unfolding vi clear_lower_bits_def by simp
  have D: "?x - ?r = ?P * (?x div ?P)" by (simp add: minus_mod_eq_mult_div)
  define q where "q = ?x div ?P"
  have "?a * (v0 + ?P * q) = ?a * v0 + (?K * ?P) * (c * q)" by (simp add: algebra_simps)
  then have "?a * vi = ?a * v0 + ?M * (c * q)"
    unfolding vi' q_def using D M by (simp add: add_diff_eq [symmetric] del: minus_mod_eq_mult_div)
  then have avi: "(?a * vi) mod ?M = b" using a0 by simp
  have cong: "(vi + ?r) mod ?M = val mod ?M"
  proof -
    have "vi + ?r = v0 + ?x" unfolding vi' by simp
    then have "(vi + ?r) mod ?M = (v0 + (val - v0) mod ?M) mod ?M" by simp
    also have "\<dots> = (v0 + (val - v0)) mod ?M" by (simp only: mod_add_right_eq)
    finally show ?thesis by simp
  qed
  have r0: "?r \<noteq> 0"
  proof
    assume z: "?r = 0"
    with cong have "vi mod ?M = val mod ?M" by simp
    then have "(?a * vi) mod ?M = (?a * val) mod ?M" by (metis mod_mult_right_eq)
    with avi ns show False by simp
  qed
  have rb: "0 \<le> ?r" "?r < ?P" by simp_all
  show "(?a * (lo - 1)) mod ?M = b"
  proof -
    have "(lo - 1) mod ?M = vi mod ?M" unfolding lo by (simp add: mod_diff_left_eq)
    then have "(?a * (lo - 1)) mod ?M = (?a * vi) mod ?M" by (metis mod_mult_right_eq)
    with avi show ?thesis by simp
  qed
  show "(?a * hi) mod ?M = b"
  proof -
    have "(?a * hi) mod ?M = (?a * (vi + ?P)) mod ?M" unfolding hi by (simp only: mod_mult_right_eq)
    also have "?a * (vi + ?P) = ?a * vi + ?M * c" unfolding M by (simp add: algebra_simps)
    finally show ?thesis using avi by simp
  qed
  show "(hi - lo) mod ?M = ?P - 1"
  proof -
    have "(hi - lo) mod ?M = ((vi + ?P) - (vi + 1)) mod ?M" unfolding hi lo by (simp only: mod_diff_eq)
    also have "\<dots> = (?P - 1) mod ?M" by simp
    also have "\<dots> = ?P - 1"
    proof (rule mod_pos_pos_trivial)
      show "0 \<le> ?P - 1" using P1 by linarith
      show "?P - 1 < ?M" using PM by linarith
    qed
    finally show ?thesis .
  qed
  show "(val - lo) mod ?M < ?P - 1"
  proof -
    have "(val - lo) mod ?M = (val mod ?M - (vi + 1) mod ?M) mod ?M" unfolding lo by (simp add: mod_diff_left_eq)
    also have "\<dots> = ((vi + ?r) - (vi + 1)) mod ?M" unfolding cong [symmetric] by (simp only: mod_diff_eq)
    also have "\<dots> = (?r - 1) mod ?M" by simp
    also have "\<dots> = ?r - 1"
    proof (rule mod_pos_pos_trivial)
      show "0 \<le> ?r - 1" using r0 rb(1) by linarith
      show "?r - 1 < ?M" using rb(2) PM by linarith
    qed
    finally show ?thesis using rb by simp
  qed
qed

lemma grid_sound:
  fixes c vi t :: int
  assumes kN: "k \<le> N" and c: "odd c"
      and avi: "(2 ^ k * c * vi) mod 2 ^ N = b"
      and t: "(t - (vi + 1)) mod 2 ^ N < 2 ^ (N - k) - 1"
  shows "(2 ^ k * c * t) mod 2 ^ N \<noteq> b"
proof
  let ?K = "2 ^ k :: int" and ?P = "2 ^ (N - k) :: int" and ?M = "2 ^ N :: int"
  assume "(?K * c * t) mod ?M = b"
  with avi have "(?K * c * t) mod ?M = (?K * c * vi) mod ?M" by simp
  then have "?M dvd ?K * c * t - ?K * c * vi" by (simp only: mod_eq_dvd_iff)
  moreover have M: "?M = ?K * ?P" using kN by (simp add: power_add [symmetric])
  moreover have "?K * c * t - ?K * c * vi = ?K * (c * (t - vi))" by (simp add: algebra_simps)
  ultimately have "?K * ?P dvd ?K * (c * (t - vi))" by simp
  then have "?P dvd c * (t - vi)" by simp
  moreover have "coprime ?P c" using c by simp
  ultimately have d: "?P dvd t - vi" by (simp add: coprime_dvd_mult_right_iff)
  define q where "q = (t - (vi + 1)) mod ?M"
  have q: "0 \<le> q" "q < ?P - 1" using t by (simp_all add: q_def)
  have PM: "?P dvd ?M" by (rule le_imp_power_dvd) simp
  have "q mod ?P = (t - (vi + 1)) mod ?P" unfolding q_def using PM by (rule mod_mod_cancel)
  also have "\<dots> = ((t - vi) - 1) mod ?P" by (simp add: algebra_simps)
  also have "\<dots> = ((t - vi) mod ?P - 1) mod ?P" by (simp only: mod_diff_left_eq)
  also have "\<dots> = (- 1) mod ?P" using d by simp
  also have "\<dots> = ?P - 1" by (simp add: zmod_minus1)
  finally have "q mod ?P = ?P - 1" .
  moreover have "q mod ?P = q" using q by (intro mod_pos_pos_trivial) auto
  ultimately show False using q by simp
qed

lemma equation_contains:
  fixes b x :: int
  assumes "0 \<le> b" "b < M" "0 \<le> x" "x < M" "x \<noteq> b"
  shows "currently_contains (eval_proper l ((b + 1) mod M) h b) x"
proof (cases "b + 1 = M")
  case True
  then have "(b + 1) mod M = 0" by simp
  with assms True show ?thesis
    by (simp add: currently_contains_def eval_proper_def is_full_def lo_val_def hi_val_def)
next
  case False
  with assms have "(b + 1) mod M = b + 1" by (intro mod_pos_pos_trivial) auto
  with assms show ?thesis
    by (auto simp: currently_contains_def eval_proper_def is_full_def lo_val_def hi_val_def)
qed

lemma equal_lin_interval_even:
  assumes a: "0 < a" "a < 2 ^ N" "even a"
      and b: "0 \<le> b" "b < 2 ^ N"
      and val: "0 \<le> val" "val < 2 ^ N"
      and e: "coeff e = a" "interval e = eval_proper l ((b + 1) mod 2 ^ N) h b"
      and ns: "(a * val) mod 2 ^ N \<noteq> b"
  shows "get_parity b N < get_parity a N \<Longrightarrow> equal_lin_interval N val e = Found eval_full"
    and "get_parity a N \<le> get_parity b N \<Longrightarrow>
          \<exists>lo hi. equal_lin_interval N val e = Found (eval_proper (Val lo) lo (Val hi) hi)
             \<and> 0 \<le> lo \<and> lo < 2 ^ N \<and> 0 \<le> hi \<and> hi < 2 ^ N
             \<and> (hi - lo) mod 2 ^ N = 2 ^ (N - get_parity a N) - 1
             \<and> (a * (lo - 1)) mod 2 ^ N = b \<and> (a * hi) mod 2 ^ N = b
             \<and> (val - lo) mod 2 ^ N < (hi - lo) mod 2 ^ N
             \<and> (\<forall>t. (t - lo) mod 2 ^ N < (hi - lo) mod 2 ^ N \<longrightarrow> (a * t) mod 2 ^ N \<noteq> b)"
proof -
  let ?M = "2 ^ N :: int"
  define k where "k = get_parity a N"
  define c where "c = a div 2 ^ k"
  have amod: "a mod ?M = a" using a by simp
  have kN: "k < N" unfolding k_def using a amod by (intro get_parity_lt) simp
  have codd: "odd c" unfolding c_def k_def using kN by (intro get_parity_odd) (simp add: k_def)
  have ac: "a = 2 ^ k * c" unfolding c_def k_def using get_parity_dvd [of a N] by simp
  have k0: "k \<noteq> 0"
  proof
    assume "k = 0"
    with ac codd have "odd a" by simp
    with a show False by simp
  qed
  have cont: "currently_contains (interval e) ((coeff e * val) mod ?M)"
    unfolding e using b ns by (intro equation_contains) simp_all
  have eqn: "(hi_val (interval e) + 1) mod ?M = lo_val (interval e)"
    by (simp add: e eval_proper_def hi_val_def lo_val_def)
  have hv: "hi_val (interval e) = b" by (simp add: e eval_proper_def hi_val_def)
  {
    assume "get_parity b N < get_parity a N"
    then show "equal_lin_interval N val e = Found eval_full"
      using cont eqn by (simp add: equal_lin_interval_def Let_def hv e(1))
  }
  {
    assume le: "get_parity a N \<le> get_parity b N"
    from mult_inverse_odd [OF codd, of N] obtain ainv where
      mi: "mult_inverse c N = Some ainv" and inv: "(c * ainv) mod ?M = 1 mod ?M" by blast
    have pi: "pseudo_inverse a N = Some ainv"
      using a mi by (simp add: pseudo_inverse_def amod c_def k_def)
    have kb: "2 ^ k dvd b"
    proof -
      have "(2::int) ^ k dvd 2 ^ get_parity b N" using le by (intro le_imp_power_dvd) (simp add: k_def)
      then show ?thesis using get_parity_dvd [of b N] by (rule dvd_trans)
    qed
    define v0 where "v0 = (ainv * (b div 2 ^ k)) mod 2 ^ (N - k)"
    define vi where "vi = v0 + clear_lower_bits ((val - v0) mod ?M) (N - k)"
    define lo where "lo = (vi + 1) mod ?M"
    define hi where "hi = (vi + 2 ^ (N - k)) mod ?M"
    have kN': "k \<le> N" using kN by simp
    have ns': "(2 ^ k * c * val) mod ?M \<noteq> b" using ns ac by simp
    note g = grid_interval [OF kN' inv kb b val ns' v0_def vi_def lo_def hi_def]
    have r: "equal_lin_interval N val e = Found (eval_proper (Val lo) lo (Val hi) hi)"
      using cont eqn le k0 pi
      by (simp add: equal_lin_interval_def Let_def hv e(1) k_def [symmetric] machine_div2k_def
            v0_def [symmetric] vi_def [symmetric] lo_def [symmetric] hi_def [symmetric])
    have rng: "0 \<le> lo" "lo < ?M" "0 \<le> hi" "hi < ?M" by (simp_all add: lo_def hi_def)
    have len: "(hi - lo) mod ?M = 2 ^ (N - k) - 1" by (rule g(3))
    have s1: "(a * (lo - 1)) mod ?M = b" using g(1) ac by simp
    have s2: "(a * hi) mod ?M = b" using g(2) ac by simp
    have cv: "(val - lo) mod ?M < (hi - lo) mod ?M" using g(4) len by simp
    have avi: "(2 ^ k * c * vi) mod ?M = b"
    proof -
      have "(lo - 1) mod ?M = vi mod ?M" unfolding lo_def by (simp add: mod_diff_left_eq)
      then have "(2 ^ k * c * (lo - 1)) mod ?M = (2 ^ k * c * vi) mod ?M" by (metis mod_mult_right_eq)
      with g(1) show ?thesis by simp
    qed
    have snd: "\<forall>t. (t - lo) mod ?M < (hi - lo) mod ?M \<longrightarrow> (a * t) mod ?M \<noteq> b"
    proof (intro allI impI)
      fix t assume "(t - lo) mod ?M < (hi - lo) mod ?M"
      then have "(t - lo) mod ?M < 2 ^ (N - k) - 1" by (simp only: len)
      then have "(t - (vi + 1) mod ?M) mod ?M < 2 ^ (N - k) - 1" by (simp only: lo_def)
      then have "(t - (vi + 1)) mod ?M < 2 ^ (N - k) - 1" by (simp only: mod_diff_right_eq)
      from grid_sound [OF kN' codd avi this] show "(a * t) mod ?M \<noteq> b" using ac by simp
    qed
    from r rng len s1 s2 cv snd
    show "\<exists>lo hi. equal_lin_interval N val e = Found (eval_proper (Val lo) lo (Val hi) hi)
             \<and> 0 \<le> lo \<and> lo < 2 ^ N \<and> 0 \<le> hi \<and> hi < 2 ^ N
             \<and> (hi - lo) mod 2 ^ N = 2 ^ (N - get_parity a N) - 1
             \<and> (a * (lo - 1)) mod 2 ^ N = b \<and> (a * hi) mod 2 ^ N = b
             \<and> (val - lo) mod 2 ^ N < (hi - lo) mod 2 ^ N
             \<and> (\<forall>t. (t - lo) mod 2 ^ N < (hi - lo) mod 2 ^ N \<longrightarrow> (a * t) mod 2 ^ N \<noteq> b)"
      unfolding k_def [symmetric] by blast
  }
qed

lemma contains_i_trans:
  "currently_contains_i i other \<Longrightarrow> currently_contains other val \<Longrightarrow> currently_contains i val"
  unfolding currently_contains_i_def currently_contains_def
  by (auto split: if_splits)

lemma contains_not_empty: "currently_contains i val \<Longrightarrow> \<not> is_currently_empty i"
  unfolding currently_contains_def is_currently_empty_def is_proper_def is_full_def
  by (auto split: if_splits)

lemma full_contains: "is_full i \<Longrightarrow> currently_contains i val"
  by (simp add: currently_contains_def)

lemma intersect_loop_inserts:
  assumes "\<forall>x \<in> set (pre @ rest). \<not> currently_contains_i (interval x) (interval ne)"
  shows "fst (intersect_loop ne chk pre rest rm) \<and> ne \<in> set (fst (snd (intersect_loop ne chk pre rest rm)))"
  using assms
proof (induction ne chk pre rest rm rule: intersect_loop.induct)
  case (1 ne chk pre rm)
  then show ?case by simp
next
  case (2 ne chk pre e rest rm)
  have ne: "\<not> currently_contains_i (interval e) (interval ne)" using 2(3) by simp
  have nl: "\<not> currently_contains_i (interval (last (e # rest))) (interval ne)"
    using 2(3) last_in_set [of "e # rest"] by (metis Un_iff list.distinct(1) set_append)
  have nt: "\<not> (\<exists>x \<in> set (tl pre). currently_contains_i (interval x) (interval ne))"
    using 2(3) by (cases pre) auto
  show ?case
  proof (cases "currently_contains_i (interval ne) (interval e)")
    case True
    show ?thesis
    proof (cases "rest = []")
      case r: True
      with True ne nt show ?thesis by (simp add: Let_def)
    next
      case r: False
      have "\<forall>x \<in> set (pre @ rest). \<not> currently_contains_i (interval x) (interval ne)"
        using 2(3) by simp
      from 2(1) [OF _ True refl refl _ r this] ne True r show ?thesis
        by (simp add: Let_def)
    qed
  next
    case False
    show ?thesis
    proof (cases "lo_val (interval e) > lo_val (interval ne)")
      case True
      with False ne nl show ?thesis by simp
    next
      case g: False
      have "\<forall>x \<in> set ((pre @ [e]) @ rest). \<not> currently_contains_i (interval x) (interval ne)"
        using 2(3) by simp
      from 2(2) [OF _ False g this] ne False g show ?thesis by simp
    qed
  qed
qed

lemma intersect_ring_inserts:
  assumes "\<forall>x \<in> set r. \<not> currently_contains (interval x) val"
      and "currently_contains (interval ne) val"
  shows "fst (intersect_ring ne r) \<and> ne \<in> set (fst (snd (intersect_ring ne r)))
       \<and> (is_full (interval ne) \<longrightarrow> fst (snd (intersect_ring ne r)) = [ne])"
proof -
  have nf: "\<not> (r \<noteq> [] \<and> is_full (interval (hd r)))"
    using assms(1) full_contains [of "interval (hd r)" val] by (cases r) auto
  have nem: "\<not> is_currently_empty (interval ne)" using assms(2) by (rule contains_not_empty)
  have ni: "\<forall>x \<in> set ([] @ r). \<not> currently_contains_i (interval x) (interval ne)"
    using assms contains_i_trans by auto
  show ?thesis
    using nf nem intersect_loop_inserts [OF ni, of True "[]"]
    by (simp add: intersect_ring_def)
qed

lemma ensure_layer_props:
  "ensure_layer ls w = (ls', i) \<Longrightarrow>
     i < length ls' \<and> get_layer ls' w = Some i
     \<and> (ls' ! i \<in> set ls \<or> ls' ! i = new_layer w)"
proof (induction ls w arbitrary: ls' i rule: ensure_layer.induct)
  case (1 w)
  then show ?case by (auto simp: new_layer_def)
next
  case (2 l ls w)
  show ?case
  proof (cases "l_bit_width l = w")
    case True
    with 2(2) show ?thesis by auto
  next
    case ne: False
    show ?thesis
    proof (cases "l_bit_width l < w")
      case True
      with ne 2(2) show ?thesis by (auto simp: new_layer_def)
    next
      case False
      obtain ls1 i1 where r: "ensure_layer ls w = (ls1, i1)" by (cases "ensure_layer ls w")
      from 2(1) [OF ne False r] have
        ih: "i1 < length ls1" "get_layer ls1 w = Some i1" "ls1 ! i1 \<in> set ls \<or> ls1 ! i1 = new_layer w"
        by simp_all
      from 2(2) ne False r have "ls' = l # ls1" "i = Suc i1" by simp_all
      with ih ne show ?thesis by auto
    qed
  qed
qed

lemma get_layer_set_entries:
  "get_layer ls w = Some i \<Longrightarrow> i < length ls \<Longrightarrow> get_entries (set_entries ls i r) w = r"
proof (induction ls arbitrary: i)
  case Nil
  then show ?case by simp
next
  case (Cons l ls)
  show ?case
  proof (cases "l_bit_width l = w")
    case True
    with Cons.prems show ?thesis by (simp add: get_entries_def set_entries_def)
  next
    case False
    with Cons.prems obtain j where j: "get_layer ls w = Some j" "i = Suc j" by auto
    with Cons.prems have "j < length ls" by simp
    from Cons.IH [OF j(1) this] False j show ?thesis
      by (simp add: get_entries_def set_entries_def split: option.splits)
  qed
qed

lemma intersect_entry_inserts:
  assumes v: "v < length (m_units (m_viable s))"
      and u: "\<forall>l \<in> set (m_units (m_viable s) ! v). \<forall>x \<in> set (entries l).
                \<not> currently_contains (interval x) val"
      and c: "currently_contains (interval ne) val"
  shows "\<exists>s'. intersect_entry v ne s = Some (True, s')
           \<and> ne \<in> set (get_entries (m_units (m_viable s') ! v) (bit_width ne))
           \<and> (is_full (interval ne) \<longrightarrow>
                 get_entries (m_units (m_viable s') ! v) (bit_width ne) = [ne])
           \<and> m_size s' = m_size s \<and> m_level s' = m_level s
           \<and> m_base_levels s' = m_base_levels s
           \<and> length (m_units (m_viable s')) = length (m_units (m_viable s))
           \<and> m_equal_lin (m_viable s') = m_equal_lin (m_viable s)"
proof -
  obtain ls i where el: "ensure_layer (m_units (m_viable s) ! v) (bit_width ne) = (ls, i)"
    by (cases "ensure_layer (m_units (m_viable s) ! v) (bit_width ne)")
  from ensure_layer_props [OF el] have
    p: "i < length ls" "get_layer ls (bit_width ne) = Some i"
       "ls ! i \<in> set (m_units (m_viable s) ! v) \<or> ls ! i = new_layer (bit_width ne)"
    by simp_all
  have ur: "\<forall>x \<in> set (entries (ls ! i)). \<not> currently_contains (interval x) val"
    using p(3) u by (auto simp: new_layer_def)
  obtain ins r rm where ir: "intersect_ring ne (entries (ls ! i)) = (ins, r, rm)"
    by (cases "intersect_ring ne (entries (ls ! i))")
  from intersect_ring_inserts [OF ur c] ir have
    q: "ins" "ne \<in> set r" "is_full (interval ne) \<longrightarrow> r = [ne]" by simp_all
  from get_layer_set_entries [OF p(2) p(1)] have
    g: "get_entries (set_entries ls i r) (bit_width ne) = r" .
  show ?thesis
    using v el ir q g by (auto simp: intersect_entry_def Let_def)
qed

lemma refine_equal_lin_inserts:
  assumes s: "v < length (m_equal_lin (m_viable s))" "v < length (m_size s)"
             "v < length (m_units (m_viable s))" "m_equal_lin (m_viable s) ! v = e # es"
      and f: "equal_lin_interval (m_size s ! v) val e = Found iv"
      and c: "currently_contains iv val"
      and u: "\<forall>l \<in> set (m_units (m_viable s) ! v). \<forall>x \<in> set (entries l).
                \<not> currently_contains (interval x) val"
  shows "\<exists>s' ne. refine_equal_lin v val s = Some (False, s')
           \<and> ne \<in> set (get_entries (m_units (m_viable s') ! v) (bit_width e))
           \<and> interval ne = iv \<and> refined ne \<and> src ne = src e \<and> side_cond ne = side_cond e
           \<and> coeff ne = 1
           \<and> (is_full iv \<longrightarrow> get_entries (m_units (m_viable s') ! v) (bit_width e) = [ne])
           \<and> m_size s' = m_size s \<and> m_level s' = m_level s
           \<and> m_base_levels s' = m_base_levels s
           \<and> length (m_units (m_viable s')) = length (m_units (m_viable s))
           \<and> length (m_equal_lin (m_viable s')) = length (m_equal_lin (m_viable s))"
proof -
  define s1 where "s1 = s\<lparr> m_viable := (m_viable s)\<lparr> m_equal_lin :=
                       (m_equal_lin (m_viable s))[v := rotate1 (e # es)] \<rparr> \<rparr>"
  obtain ne0 vi' where al: "alloc_entry (m_viable s1) = (ne0, vi')"
    by (cases "alloc_entry (m_viable s1)")
  define ne where "ne = refined_entry ne0 e iv"
  define s2 where "s2 = s1\<lparr> m_viable := vi' \<rparr>"
  have units: "m_units vi' = m_units (m_viable s)"
    using al by (auto simp: alloc_entry_def s1_def split: if_splits)
  have v2: "v < length (m_units (m_viable s2))" using s(3) by (simp add: s2_def units)
  have u2: "\<forall>l \<in> set (m_units (m_viable s2) ! v). \<forall>x \<in> set (entries l).
                \<not> currently_contains (interval x) val"
    using u by (simp add: s2_def units)
  have c2: "currently_contains (interval ne) val" using c by (simp add: ne_def refined_entry_def)
  from intersect_entry_inserts [OF v2 u2 c2] obtain s' where
    i: "intersect_entry v ne s2 = Some (True, s')"
       "ne \<in> set (get_entries (m_units (m_viable s') ! v) (bit_width ne))"
       "is_full (interval ne) \<longrightarrow> get_entries (m_units (m_viable s') ! v) (bit_width ne) = [ne]"
    and fr: "m_size s' = m_size s2" "m_level s' = m_level s2"
       "m_base_levels s' = m_base_levels s2"
       "length (m_units (m_viable s')) = length (m_units (m_viable s2))"
       "m_equal_lin (m_viable s') = m_equal_lin (m_viable s2)"
    by blast
  have el: "m_equal_lin vi' = m_equal_lin (m_viable s1)"
    using al by (auto simp: alloc_entry_def split: if_splits)
  have fr': "m_size s' = m_size s" "m_level s' = m_level s" "m_base_levels s' = m_base_levels s"
       "length (m_units (m_viable s')) = length (m_units (m_viable s))"
       "length (m_equal_lin (m_viable s')) = length (m_equal_lin (m_viable s))"
    using fr by (simp_all add: s2_def s1_def units el)
  have r: "refine_equal_lin v val s = Some (False, s')"
    using s f al i(1) unfolding s1_def s2_def ne_def
    by (simp add: refine_equal_lin_def Let_def)
  have p: "interval ne = iv" "refined ne" "src ne = src e" "side_cond ne = side_cond e"
          "coeff ne = 1" "bit_width ne = bit_width e"
    by (simp_all add: ne_def refined_entry_def)
  from r i(2,3) p fr' show ?thesis by auto
qed

lemma query_find_full:
  assumes "v < length (m_units (m_viable s))" "v < length (m_size s)"
      and "get_entries (m_units (m_viable s) ! v) (m_size s ! v) = ne # r"
      and "is_full (interval ne)"
  shows "query_find v fbi s
           = Some (l_false, 0, 2 ^ (m_size s ! v) - 1, s\<lparr> m_conflict := by_viable_interval v \<rparr>)"
  using assms by (simp add: query_find_def Let_def)

lemma find_viable_full:
  assumes "v < length (m_units (m_viable s))" "v < length (m_size s)"
      and "v < length (m_equal_lin (m_viable s))"
      and "get_entries (m_units (m_viable s) ! v) (m_size s ! v) = ne # r"
      and "is_full (interval ne)"
      and "collect_bit_information orc v (m_equal_lin (m_viable s) ! v) = (True, fbi)"
  shows "find_viable orc v lo s = Some (find_empty, 0, s\<lparr> m_conflict := by_viable_interval v \<rparr>)"
proof -
  let ?s2 = "s\<lparr> m_conflict := by_viable_interval v \<rparr>"
  have r: "query_round q_find_viable v fbi lo 0 s = Some (l_false, 0, 2 ^ (m_size s ! v) - 1, ?s2)"
    using query_find_full [OF assms(1,2,4,5)] by (simp add: query_round_def)
  have e: "refinement_budget = Suc 999" by (simp add: refinement_budget_def)
  have "query_rounds (Suc 999) q_find_viable v fbi lo 0 s
          = Some (l_false, 0, 2 ^ (m_size s ! v) - 1, ?s2)"
    by (simp only: query_rounds.simps r) simp
  then have "query_loop refinement_budget orc q_find_viable v fbi lo 0 s
          = Some (l_false, 0, 2 ^ (m_size s ! v) - 1, ?s2)"
    by (simp only: query_loop_rounds e) simp
  then show ?thesis
    using assms(3,6) by (simp add: find_viable_def find_viable2_def query_def)
qed

lemma conflict_at_base_level:
  "at_base_level s \<Longrightarrow> check_sat_action cd gc (s\<lparr> m_conflict := by_viable_interval v \<rparr>) = a_unsat"
  by (simp add: check_sat_action_def is_conflict_def at_base_level_def base_level_def)

lemma eq_2v_1: "equal_lin_interval 8 0 (equation_2v 1) = Found eval_full"
  by code_simp

lemma eq_2v_2: "equal_lin_interval 8 0 (equation_2v 2) = Found (eval_proper (Val 130) 130 (Val 1) 1)"
  by code_simp

lemma parity_2_8: "get_parity 2 8 = 1"
  by code_simp

lemma parity_1_8: "get_parity 1 8 = 0"
  by code_simp

lemma round1_2v:
  "\<exists>s1 ne. query_round q_find_viable 0 fbi_none 0 0 (solver_2v 1) = Some (l_undef, 0, 255, s1)
      \<and> get_entries (m_units (m_viable s1) ! 0) 8 = [ne] \<and> is_full (interval ne)
      \<and> m_size s1 = [8] \<and> length (m_units (m_viable s1)) = 1 \<and> m_level s1 = 0
      \<and> m_base_levels s1 = []"
  apply (simp add: query_round_def query_find_def solver_2v_def solver0_def viable0_def
      get_entries_def refine_viable_def refine_bits_def alloc_entry_def blank_entry_def
      extend_by_bits_def fbi_none_def refine_equal_lin_def eq_2v_1 Let_def)
  apply (simp add: equation_2v_def refined_entry_def intersect_entry_def intersect_ring_def
      is_currently_empty_def is_proper_def is_full_def eval_full_def set_entries_def new_layer_def
      blank_entry_def Let_def)
  done

lemma find_viable_2v_1:
  assumes "collect_bit_information orc 0 [equation_2v 1] = (True, fbi_none)"
  shows "\<exists>s2. find_viable orc 0 0 (solver_2v 1) = Some (find_empty, 0, s2)
      \<and> m_conflict s2 = by_viable_interval 0
      \<and> check_sat_action cd gc s2 = a_unsat"
proof -
  from round1_2v obtain s1 ne where
    r1: "query_round q_find_viable 0 fbi_none 0 0 (solver_2v 1) = Some (l_undef, 0, 255, s1)" and
    g: "get_entries (m_units (m_viable s1) ! 0) 8 = [ne]" "is_full (interval ne)" and
    z: "m_size s1 = [8]" "length (m_units (m_viable s1)) = 1" "m_level s1 = 0"
       "m_base_levels s1 = []"
    by blast
  define s2 where "s2 = s1\<lparr> m_conflict := by_viable_interval 0 \<rparr>"
  have "query_find 0 fbi_none s1 = Some (l_false, 0, 2 ^ (m_size s1 ! 0) - 1, s2)"
    unfolding s2_def using g z by (intro query_find_full) simp_all
  then have r2: "query_round q_find_viable 0 fbi_none 0 255 s1 = Some (l_false, 0, 255, s2)"
    by (simp add: query_round_def z)
  have e: "refinement_budget = Suc (Suc 998)" by (simp add: refinement_budget_def)
  have "query_rounds (Suc (Suc 998)) q_find_viable 0 fbi_none 0 0 (solver_2v 1)
          = query_rounds (Suc 998) q_find_viable 0 fbi_none 0 255 s1"
    by (simp only: query_rounds.simps r1) simp
  moreover have "query_rounds (Suc 998) q_find_viable 0 fbi_none 0 255 s1
          = Some (l_false, 0, 255, s2)"
    by (simp only: query_rounds.simps r2) simp
  ultimately have "query_rounds (Suc (Suc 998)) q_find_viable 0 fbi_none 0 0 (solver_2v 1)
          = Some (l_false, 0, 255, s2)"
    by (rule trans)
  then have q: "query_loop refinement_budget orc q_find_viable 0 fbi_none 0 0 (solver_2v 1)
                  = Some (l_false, 0, 255, s2)"
    by (simp only: query_loop_rounds e) simp
  have m: "m_equal_lin (m_viable (solver_2v 1)) = [[equation_2v 1]]"
    by (simp add: solver_2v_def viable0_def)
  have f: "find_viable orc 0 0 (solver_2v 1) = Some (find_empty, 0, s2)"
    using q assms by (simp add: find_viable_def find_viable2_def query_def m)
  have c: "check_sat_action cd gc s2 = a_unsat"
    by (simp add: check_sat_action_def is_conflict_def at_base_level_def base_level_def s2_def z)
  from f c show ?thesis by (auto simp: s2_def)
qed

text \<open>
  C2. For an equal-linear entry of the equation \<open>a * v == b\<close> at width \<open>N\<close> with an even
  coefficient \<open>a\<close> of parity \<open>k\<close>, and a candidate \<open>val\<close> that is not a solution and lies
  in no unit interval: \<open>refine_equal_lin\<close> returns false and inserts a refined unit
  entry. When the parity of \<open>a\<close> exceeds that of \<open>b\<close> this entry is the full interval,
  and it is then the only entry of its ring; if the entry has the width of the variable,
  the next \<open>find_viable\<close> reports \<open>empty\<close> with a conflict, on which the main loop
  answers unsat at the base level. Otherwise the entry is the interval \<open>[lo, hi)\<close> of
  length \<open>2 ^ (N - k) - 1\<close> that contains \<open>val\<close>, whose ends \<open>lo - 1\<close> and \<open>hi\<close> are
  solutions, and which contains no solution. In particular, for the entry of
  \<open>2 * x == 1\<close> on an 8-bit variable \<open>find_viable\<close> reports \<open>empty\<close> and the main loop
  answers unsat.
\<close>

theorem refine_equal_lin_even_coefficient:
  assumes a: "0 < a" "a < 2 ^ N" "even a"
      and b: "0 \<le> b" "b < 2 ^ N"
      and val: "0 \<le> val" "val < 2 ^ N"
      and e: "coeff e = a" "interval e = eval_proper l ((b + 1) mod 2 ^ N) h b"
      and ns: "(a * val) mod 2 ^ N \<noteq> b"
      and s: "v < length (m_equal_lin (m_viable s))" "v < length (m_size s)"
             "v < length (m_units (m_viable s))" "m_equal_lin (m_viable s) ! v = e # es"
             "m_size s ! v = N"
      and u: "\<forall>l \<in> set (m_units (m_viable s) ! v). \<forall>x \<in> set (entries l).
                \<not> currently_contains (interval x) val"
  shows "(\<exists>iv s' ne.
           equal_lin_interval N val e = Found iv
         \<and> refine_equal_lin v val s = Some (False, s')
         \<and> ne \<in> set (get_entries (m_units (m_viable s') ! v) (bit_width e))
         \<and> interval ne = iv \<and> refined ne \<and> src ne = src e \<and> coeff ne = 1
         \<and> (get_parity b N < get_parity a N \<longrightarrow>
               iv = eval_full \<and> get_entries (m_units (m_viable s') ! v) (bit_width e) = [ne]
             \<and> (bit_width e = N \<longrightarrow>
                  (\<forall>orc lo fbi.
                      collect_bit_information orc v (m_equal_lin (m_viable s') ! v) = (True, fbi)
                      \<longrightarrow> find_viable orc v lo s'
                            = Some (find_empty, 0, s'\<lparr> m_conflict := by_viable_interval v \<rparr>))
                \<and> (\<forall>cd gc. at_base_level s \<longrightarrow>
                      check_sat_action cd gc (s'\<lparr> m_conflict := by_viable_interval v \<rparr>)
                        = a_unsat)))
         \<and> (get_parity a N \<le> get_parity b N \<longrightarrow>
               (\<exists>lo hi. iv = eval_proper (Val lo) lo (Val hi) hi
                  \<and> 0 \<le> lo \<and> lo < 2 ^ N \<and> 0 \<le> hi \<and> hi < 2 ^ N
                  \<and> current_len (2 ^ N) iv = 2 ^ (N - get_parity a N) - 1
                  \<and> (a * (lo - 1)) mod 2 ^ N = b \<and> (a * hi) mod 2 ^ N = b
                  \<and> currently_contains iv val
                  \<and> (\<forall>t. 0 \<le> t \<and> t < 2 ^ N \<and> currently_contains iv t
                         \<longrightarrow> (a * t) mod 2 ^ N \<noteq> b))))
       \<and> (\<forall>orc cd gc. collect_bit_information orc 0 [equation_2v 1] = (True, fbi_none) \<longrightarrow>
             (\<exists>s2. find_viable orc 0 0 (solver_2v 1) = Some (find_empty, 0, s2)
                  \<and> m_conflict s2 = by_viable_interval 0
                  \<and> check_sat_action cd gc s2 = a_unsat))"
proof (rule conjI)
  show "\<forall>orc cd gc. collect_bit_information orc 0 [equation_2v 1] = (True, fbi_none) \<longrightarrow>
             (\<exists>s2. find_viable orc 0 0 (solver_2v 1) = Some (find_empty, 0, s2)
                  \<and> m_conflict s2 = by_viable_interval 0
                  \<and> check_sat_action cd gc s2 = a_unsat)"
    using find_viable_2v_1 by blast
  show "\<exists>iv s' ne.
           equal_lin_interval N val e = Found iv
         \<and> refine_equal_lin v val s = Some (False, s')
         \<and> ne \<in> set (get_entries (m_units (m_viable s') ! v) (bit_width e))
         \<and> interval ne = iv \<and> refined ne \<and> src ne = src e \<and> coeff ne = 1
         \<and> (get_parity b N < get_parity a N \<longrightarrow>
               iv = eval_full \<and> get_entries (m_units (m_viable s') ! v) (bit_width e) = [ne]
             \<and> (bit_width e = N \<longrightarrow>
                  (\<forall>orc lo fbi.
                      collect_bit_information orc v (m_equal_lin (m_viable s') ! v) = (True, fbi)
                      \<longrightarrow> find_viable orc v lo s'
                            = Some (find_empty, 0, s'\<lparr> m_conflict := by_viable_interval v \<rparr>))
                \<and> (\<forall>cd gc. at_base_level s \<longrightarrow>
                      check_sat_action cd gc (s'\<lparr> m_conflict := by_viable_interval v \<rparr>)
                        = a_unsat)))
         \<and> (get_parity a N \<le> get_parity b N \<longrightarrow>
               (\<exists>lo hi. iv = eval_proper (Val lo) lo (Val hi) hi
                  \<and> 0 \<le> lo \<and> lo < 2 ^ N \<and> 0 \<le> hi \<and> hi < 2 ^ N
                  \<and> current_len (2 ^ N) iv = 2 ^ (N - get_parity a N) - 1
                  \<and> (a * (lo - 1)) mod 2 ^ N = b \<and> (a * hi) mod 2 ^ N = b
                  \<and> currently_contains iv val
                  \<and> (\<forall>t. 0 \<le> t \<and> t < 2 ^ N \<and> currently_contains iv t
                         \<longrightarrow> (a * t) mod 2 ^ N \<noteq> b)))"
  proof (cases "get_parity b N < get_parity a N")
    case True
    from equal_lin_interval_even(1) [OF a b val e ns True]
    have f: "equal_lin_interval N val e = Found eval_full" .
    have fl: "is_full eval_full" by (simp add: is_full_def eval_full_def)
    then have c: "currently_contains eval_full val" by (rule full_contains)
    from f have f': "equal_lin_interval (m_size s ! v) val e = Found eval_full" by (simp add: s(5))
    from refine_equal_lin_inserts [OF s(1-4) f' c u] fl obtain s' ne where
      r: "refine_equal_lin v val s = Some (False, s')"
         "ne \<in> set (get_entries (m_units (m_viable s') ! v) (bit_width e))"
         "interval ne = eval_full" "refined ne" "src ne = src e" "coeff ne = 1"
         "get_entries (m_units (m_viable s') ! v) (bit_width e) = [ne]" and
      fr: "m_size s' = m_size s" "m_level s' = m_level s" "m_base_levels s' = m_base_levels s"
          "length (m_units (m_viable s')) = length (m_units (m_viable s))"
          "length (m_equal_lin (m_viable s')) = length (m_equal_lin (m_viable s))"
      by auto
    have fv: "find_viable orc v lo s' = Some (find_empty, 0, s'\<lparr> m_conflict := by_viable_interval v \<rparr>)"
      if w: "bit_width e = N"
        and cb: "collect_bit_information orc v (m_equal_lin (m_viable s') ! v) = (True, fbi)"
      for orc lo fbi
    proof (rule find_viable_full [OF _ _ _ _ _ cb])
      show "v < length (m_units (m_viable s'))" using s(3) fr by simp
      show "v < length (m_size s')" using s(2) fr by simp
      show "v < length (m_equal_lin (m_viable s'))" using s(1) fr by simp
      show "get_entries (m_units (m_viable s') ! v) (m_size s' ! v) = ne # []"
        using r(7) w s(5) fr by simp
      show "is_full (interval ne)" using r(3) fl by simp
    qed
    have cs: "check_sat_action cd gc (s'\<lparr> m_conflict := by_viable_interval v \<rparr>) = a_unsat"
      if "at_base_level s" for cd gc
    proof (rule conflict_at_base_level)
      show "at_base_level s'" using that fr by (simp add: at_base_level_def base_level_def)
    qed
    show ?thesis
      apply (rule exI [of _ eval_full])
      apply (rule exI [of _ s'])
      apply (rule exI [of _ ne])
      using f r True fv cs by simp
  next
    case False
    then have le: "get_parity a N \<le> get_parity b N" by simp
    from equal_lin_interval_even(2) [OF a b val e ns le] obtain lo hi where
      f: "equal_lin_interval N val e = Found (eval_proper (Val lo) lo (Val hi) hi)" and
      rng: "0 \<le> lo" "lo < 2 ^ N" "0 \<le> hi" "hi < 2 ^ N" and
      len: "(hi - lo) mod 2 ^ N = 2 ^ (N - get_parity a N) - 1" and
      sol: "(a * (lo - 1)) mod 2 ^ N = b" "(a * hi) mod 2 ^ N = b" and
      cv: "(val - lo) mod 2 ^ N < (hi - lo) mod 2 ^ N" and
      snd: "\<forall>t. (t - lo) mod 2 ^ N < (hi - lo) mod 2 ^ N \<longrightarrow> (a * t) mod 2 ^ N \<noteq> b"
      by blast
    define iv where "iv = eval_proper (Val lo) lo (Val hi) hi"
    have c: "currently_contains iv val"
      unfolding iv_def using cv contains_iff_mod [OF rng val] by simp
    have cl: "current_len (2 ^ N) iv = 2 ^ (N - get_parity a N) - 1"
      using len by (simp add: current_len_def iv_def eval_proper_def hi_val_def lo_val_def)
    have sd: "\<forall>t. 0 \<le> t \<and> t < 2 ^ N \<and> currently_contains iv t \<longrightarrow> (a * t) mod 2 ^ N \<noteq> b"
    proof (intro allI impI)
      fix t assume t: "0 \<le> t \<and> t < 2 ^ N \<and> currently_contains iv t"
      then have "(t - lo) mod 2 ^ N < (hi - lo) mod 2 ^ N"
        using contains_iff_mod [OF rng, of t "Val lo" "Val hi"] by (simp add: iv_def)
      with snd show "(a * t) mod 2 ^ N \<noteq> b" by simp
    qed
    from f have f': "equal_lin_interval (m_size s ! v) val e = Found iv" by (simp add: s(5) iv_def)
    from refine_equal_lin_inserts [OF s(1-4) f' c u] obtain s' ne where
      r: "refine_equal_lin v val s = Some (False, s')"
         "ne \<in> set (get_entries (m_units (m_viable s') ! v) (bit_width e))"
         "interval ne = iv" "refined ne" "src ne = src e" "coeff ne = 1"
      by blast
    have "\<exists>lo hi. iv = eval_proper (Val lo) lo (Val hi) hi
                  \<and> 0 \<le> lo \<and> lo < 2 ^ N \<and> 0 \<le> hi \<and> hi < 2 ^ N
                  \<and> current_len (2 ^ N) iv = 2 ^ (N - get_parity a N) - 1
                  \<and> (a * (lo - 1)) mod 2 ^ N = b \<and> (a * hi) mod 2 ^ N = b
                  \<and> currently_contains iv val
                  \<and> (\<forall>t. 0 \<le> t \<and> t < 2 ^ N \<and> currently_contains iv t
                         \<longrightarrow> (a * t) mod 2 ^ N \<noteq> b)"
      using iv_def rng cl sol c sd by blast
    with f' r False s(5) show ?thesis
      by (intro exI [of _ iv] exI [of _ s'] exI [of _ ne]) simp
  qed
qed

theorem refine_equal_lin_width_counterexample:
  "get_parity 2 8 = 1
   \<and> get_parity 2 8 \<le> get_parity 2 8
   \<and> equal_lin_interval 8 0 (equation_2v 2) = Found (eval_proper (Val 130) 130 (Val 1) 1)
   \<and> current_len (2 ^ 8) (eval_proper (Val 130) 130 (Val 1) 1) = 127
   \<and> current_len (2 ^ 8) (eval_proper (Val 130) 130 (Val 1) 1) \<noteq> 2 ^ (8 - get_parity 2 8)"
  by (simp add: eq_2v_2 parity_2_8 current_len_def eval_proper_def hi_val_def lo_val_def)

theorem refine_equal_lin_even_coefficient_witness:
  "(\<exists>s' ne. refine_equal_lin 0 0 (solver_2v 1) = Some (False, s')
        \<and> get_entries (m_units (m_viable s') ! 0) 8 = [ne] \<and> interval ne = eval_full
        \<and> refined ne
        \<and> find_viable orc_sat 0 0 s'
            = Some (find_empty, 0, s'\<lparr> m_conflict := by_viable_interval 0 \<rparr>)
        \<and> check_sat_action True False (s'\<lparr> m_conflict := by_viable_interval 0 \<rparr>) = a_unsat)
   \<and> (\<exists>s2. find_viable orc_sat 0 0 (solver_2v 1) = Some (find_empty, 0, s2)
        \<and> check_sat_action True False s2 = a_unsat)
   \<and> (\<exists>s' ne. refine_equal_lin 0 0 (solver_2v 2) = Some (False, s')
        \<and> ne \<in> set (get_entries (m_units (m_viable s') ! 0) 8)
        \<and> interval ne = eval_proper (Val 130) 130 (Val 1) 1 \<and> refined ne
        \<and> current_len (2 ^ 8) (interval ne) = 2 ^ (8 - 1) - 1
        \<and> (2 * (130 - 1)) mod 2 ^ 8 = (2::int) \<and> (2 * 1) mod 2 ^ 8 = (2::int))"
proof -
  have st: "0 < length (m_equal_lin (m_viable (solver_2v b)))" "0 < length (m_size (solver_2v b))"
           "0 < length (m_units (m_viable (solver_2v b)))"
           "m_equal_lin (m_viable (solver_2v b)) ! 0 = equation_2v b # []"
           "m_size (solver_2v b) ! 0 = 8"
           "\<forall>l \<in> set (m_units (m_viable (solver_2v b)) ! 0). \<forall>x \<in> set (entries l).
                \<not> currently_contains (interval x) 0" for b
    by (simp_all add: solver_2v_def solver0_def viable0_def)
  have e1: "coeff (equation_2v 1) = 2"
           "interval (equation_2v 1) = eval_proper (Val 2) ((1 + 1) mod 2 ^ 8) (Val 1) 1"
    by (simp_all add: equation_2v_def)
  have e2: "coeff (equation_2v 2) = 2"
           "interval (equation_2v 2) = eval_proper (Val 3) ((2 + 1) mod 2 ^ 8) (Val 2) 2"
    by (simp_all add: equation_2v_def)
  have bw: "bit_width (equation_2v b) = 8" for b by (simp add: equation_2v_def)
  have p1: "get_parity 1 8 < get_parity 2 8" by (simp add: parity_1_8 parity_2_8)
  have p2: "get_parity 2 8 \<le> get_parity 2 8" by simp
  have bl: "at_base_level (solver_2v b)" for b
    by (simp add: at_base_level_def base_level_def solver_2v_def solver0_def)
  have cb: "collect_bit_information orc_sat 0 r = (True, fbi_none)" for r
    by (simp add: orc_sat_def)
  have f1: "(\<exists>iv s' ne.
           equal_lin_interval 8 0 (equation_2v 1) = Found iv
         \<and> refine_equal_lin 0 0 (solver_2v 1) = Some (False, s')
         \<and> ne \<in> set (get_entries (m_units (m_viable s') ! 0) (bit_width (equation_2v 1)))
         \<and> interval ne = iv \<and> refined ne \<and> src ne = src (equation_2v 1) \<and> coeff ne = 1
         \<and> (get_parity 1 8 < get_parity 2 8 \<longrightarrow>
               iv = eval_full
             \<and> get_entries (m_units (m_viable s') ! 0) (bit_width (equation_2v 1)) = [ne]
             \<and> (bit_width (equation_2v 1) = 8 \<longrightarrow>
                  (\<forall>orc lo fbi.
                      collect_bit_information orc 0 (m_equal_lin (m_viable s') ! 0) = (True, fbi)
                      \<longrightarrow> find_viable orc 0 lo s'
                            = Some (find_empty, 0, s'\<lparr> m_conflict := by_viable_interval 0 \<rparr>))
                \<and> (\<forall>cd gc. at_base_level (solver_2v 1) \<longrightarrow>
                      check_sat_action cd gc (s'\<lparr> m_conflict := by_viable_interval 0 \<rparr>)
                        = a_unsat)))
         \<and> (get_parity 2 8 \<le> get_parity 1 8 \<longrightarrow>
               (\<exists>lo hi. iv = eval_proper (Val lo) lo (Val hi) hi
                  \<and> 0 \<le> lo \<and> lo < 2 ^ 8 \<and> 0 \<le> hi \<and> hi < 2 ^ 8
                  \<and> current_len (2 ^ 8) iv = 2 ^ (8 - get_parity 2 8) - 1
                  \<and> (2 * (lo - 1)) mod 2 ^ 8 = 1 \<and> (2 * hi) mod 2 ^ 8 = 1
                  \<and> currently_contains iv 0
                  \<and> (\<forall>t. 0 \<le> t \<and> t < 2 ^ 8 \<and> currently_contains iv t
                         \<longrightarrow> (2 * t) mod 2 ^ 8 \<noteq> 1))))
       \<and> (\<forall>orc cd gc. collect_bit_information orc 0 [equation_2v 1] = (True, fbi_none) \<longrightarrow>
             (\<exists>s2. find_viable orc 0 0 (solver_2v 1) = Some (find_empty, 0, s2)
                  \<and> m_conflict s2 = by_viable_interval 0
                  \<and> check_sat_action cd gc s2 = a_unsat))"
    by (rule refine_equal_lin_even_coefficient [OF _ _ _ _ _ _ _ e1 _ st]) simp_all
  have f2: "(\<exists>iv s' ne.
           equal_lin_interval 8 0 (equation_2v 2) = Found iv
         \<and> refine_equal_lin 0 0 (solver_2v 2) = Some (False, s')
         \<and> ne \<in> set (get_entries (m_units (m_viable s') ! 0) (bit_width (equation_2v 2)))
         \<and> interval ne = iv \<and> refined ne \<and> src ne = src (equation_2v 2) \<and> coeff ne = 1
         \<and> (get_parity 2 8 < get_parity 2 8 \<longrightarrow>
               iv = eval_full
             \<and> get_entries (m_units (m_viable s') ! 0) (bit_width (equation_2v 2)) = [ne]
             \<and> (bit_width (equation_2v 2) = 8 \<longrightarrow>
                  (\<forall>orc lo fbi.
                      collect_bit_information orc 0 (m_equal_lin (m_viable s') ! 0) = (True, fbi)
                      \<longrightarrow> find_viable orc 0 lo s'
                            = Some (find_empty, 0, s'\<lparr> m_conflict := by_viable_interval 0 \<rparr>))
                \<and> (\<forall>cd gc. at_base_level (solver_2v 2) \<longrightarrow>
                      check_sat_action cd gc (s'\<lparr> m_conflict := by_viable_interval 0 \<rparr>)
                        = a_unsat)))
         \<and> (get_parity 2 8 \<le> get_parity 2 8 \<longrightarrow>
               (\<exists>lo hi. iv = eval_proper (Val lo) lo (Val hi) hi
                  \<and> 0 \<le> lo \<and> lo < 2 ^ 8 \<and> 0 \<le> hi \<and> hi < 2 ^ 8
                  \<and> current_len (2 ^ 8) iv = 2 ^ (8 - get_parity 2 8) - 1
                  \<and> (2 * (lo - 1)) mod 2 ^ 8 = 2 \<and> (2 * hi) mod 2 ^ 8 = 2
                  \<and> currently_contains iv 0
                  \<and> (\<forall>t. 0 \<le> t \<and> t < 2 ^ 8 \<and> currently_contains iv t
                         \<longrightarrow> (2 * t) mod 2 ^ 8 \<noteq> 2))))
       \<and> (\<forall>orc cd gc. collect_bit_information orc 0 [equation_2v 1] = (True, fbi_none) \<longrightarrow>
             (\<exists>s2. find_viable orc 0 0 (solver_2v 1) = Some (find_empty, 0, s2)
                  \<and> m_conflict s2 = by_viable_interval 0
                  \<and> check_sat_action cd gc s2 = a_unsat))"
    by (rule refine_equal_lin_even_coefficient [OF _ _ _ _ _ _ _ e2 _ st]) simp_all
  note t1 = f1 [THEN conjunct1]
  note t1s = f1 [THEN conjunct2]
  note t2 = f2 [THEN conjunct1]
  from t1 p1 obtain s' ne where
    x1: "refine_equal_lin 0 0 (solver_2v 1) = Some (False, s')"
        "get_entries (m_units (m_viable s') ! 0) 8 = [ne]" "interval ne = eval_full" "refined ne"
        "\<forall>orc lo fbi.
            collect_bit_information orc 0 (m_equal_lin (m_viable s') ! 0) = (True, fbi)
            \<longrightarrow> find_viable orc 0 lo s'
                  = Some (find_empty, 0, s'\<lparr> m_conflict := by_viable_interval 0 \<rparr>)"
        "\<forall>cd gc. check_sat_action cd gc (s'\<lparr> m_conflict := by_viable_interval 0 \<rparr>) = a_unsat"
    unfolding bw using bl by auto
  from x1(5) cb have
    "find_viable orc_sat 0 0 s' = Some (find_empty, 0, s'\<lparr> m_conflict := by_viable_interval 0 \<rparr>)"
    by blast
  with x1 have w1: "\<exists>s' ne. refine_equal_lin 0 0 (solver_2v 1) = Some (False, s')
        \<and> get_entries (m_units (m_viable s') ! 0) 8 = [ne] \<and> interval ne = eval_full
        \<and> refined ne
        \<and> find_viable orc_sat 0 0 s'
            = Some (find_empty, 0, s'\<lparr> m_conflict := by_viable_interval 0 \<rparr>)
        \<and> check_sat_action True False (s'\<lparr> m_conflict := by_viable_interval 0 \<rparr>) = a_unsat"
    by blast
  from t1s cb have w2: "\<exists>s2. find_viable orc_sat 0 0 (solver_2v 1) = Some (find_empty, 0, s2)
        \<and> check_sat_action True False s2 = a_unsat"
    by blast
  from t2 p2 obtain iv s' ne where
    x: "equal_lin_interval 8 0 (equation_2v 2) = Found iv"
       "refine_equal_lin 0 0 (solver_2v 2) = Some (False, s')"
       "ne \<in> set (get_entries (m_units (m_viable s') ! 0) 8)"
       "interval ne = iv" "refined ne"
       "current_len (2 ^ 8) iv = 2 ^ (8 - get_parity 2 8) - 1"
    unfolding bw by auto
  from x(1) have iv: "iv = eval_proper (Val 130) 130 (Val 1) 1" by (simp add: eq_2v_2)
  from x iv have w3: "\<exists>s' ne. refine_equal_lin 0 0 (solver_2v 2) = Some (False, s')
        \<and> ne \<in> set (get_entries (m_units (m_viable s') ! 0) 8)
        \<and> interval ne = eval_proper (Val 130) 130 (Val 1) 1 \<and> refined ne
        \<and> current_len (2 ^ 8) (interval ne) = 2 ^ (8 - 1) - 1
        \<and> (2 * (130 - 1)) mod 2 ^ 8 = (2::int) \<and> (2 * 1) mod 2 ^ 8 = (2::int)"
    by (auto simp: parity_2_8)
  from w1 w2 w3 show ?thesis by blast
qed

section \<open>Watch lists\<close>





lemma count_le_num_watches:
  "wl \<in> set (m_pwatch s) \<Longrightarrow> count_list wl sc \<le> num_watches sc s"
  unfolding num_watches_def by (induction "m_pwatch s" arbitrary: s) (auto simp: member_le_sum_list)











end
